theory Spec2Isabelle
  imports Main "HOL-Library.Word" "HOL-Library.Monad_Syntax"
begin

section \<open>Bytes, errors and the byte stream\<close>

unbundle bit_operations_syntax

type_synonym byte = "8 word"

type_synonym uint64 = "64 word"

text \<open>\<^verbatim>\<open>type FrameType uint64\<close>\<close>

type_synonym FrameType = uint64

text \<open>
  The error values that can leave the package. \<open>EOF\<close> and \<open>ErrUnexpectedEOF\<close> are the
  two sentinels of Go's \<^verbatim>\<open>io\<close> package, \<open>IOError\<close> is any other failure of the
  underlying stream, \<open>HandlerError\<close> is an error made up by the unknown-frame callback,
  \<open>errHijacked\<close> is the package's sentinel, and the remaining constructors are the
  \<^verbatim>\<open>fmt.Errorf\<close> / \<^verbatim>\<open>errors.New\<close> values of \<^verbatim>\<open>frames.go\<close>, with the number they print.
\<close>

datatype error =
    EOF
  | ErrUnexpectedEOF
  | IOError string
  | HandlerError string
  | errHijacked
  | ReservedFrameType uint64
  | UnexpectedSettingsSize uint64
  | DuplicateSetting uint64
  | InvalidExtendedConnect uint64
  | InvalidDatagram uint64
  | GoAwayInconsistentLength

text \<open>
  An \<^verbatim>\<open>io.Reader\<close> is modelled by the bytes it will still deliver and the error every
  read returns once they are used up (\<open>EOF\<close> for a stream that ends cleanly).
\<close>

record reader =
  pending :: "byte list"
  final :: error

text \<open>\<^verbatim>\<open>ReadByte\<close> of \<^verbatim>\<open>io.ByteReader\<close>: the next byte, or the stream's error.\<close>

definition ReadByte :: "reader \<Rightarrow> (error + byte) \<times> reader" where
  "ReadByte r =
     (case pending r of
        [] \<Rightarrow> (Inl (final r), r)
      | b # bs \<Rightarrow> (Inr b, r\<lparr>pending := bs\<rparr>))"

text \<open>\<^verbatim>\<open>bytes.NewReader(buf)\<close>: a reader over a buffer ends with \<open>EOF\<close>.\<close>

definition bytes_NewReader :: "byte list \<Rightarrow> reader" where
  "bytes_NewReader buf = \<lparr>pending = buf, final = EOF\<rparr>"

section \<open>Variable-length integers (package quicvarint)\<close>

text \<open>
  Modelled from the spec: package \<^verbatim>\<open>quicvarint\<close> is imported by \<^verbatim>\<open>frames.go\<close> and is not
  among the source files. The definitions follow section 4.1, step 1 ("the top bits of the
  first byte select an encoded width (1, 2, 4, or 8 bytes) and the remaining bits plus any
  subsequent bytes hold the value, big-endian within the encoded width") and the
  library's \<^verbatim>\<open>Read\<close>, \<^verbatim>\<open>Append\<close> and \<^verbatim>\<open>Len\<close>. A failed read returns the reader's error;
  \<^verbatim>\<open>Append\<close> and \<^verbatim>\<open>Len\<close> panic on a value that does not fit 62 bits, which is the
  result \<open>None\<close> here.
\<close>

definition maxVarInt1 :: uint64 where "maxVarInt1 = 63"

definition maxVarInt2 :: uint64 where "maxVarInt2 = 16383"

definition maxVarInt4 :: uint64 where "maxVarInt4 = 1073741823"

definition maxVarInt8 :: uint64 where "maxVarInt8 = 4611686018427387903"

definition quicvarint_Read :: "reader \<Rightarrow> (error + uint64) \<times> reader" where
  "quicvarint_Read r0 =
     (case ReadByte r0 of (Inl err, r1) \<Rightarrow> (Inl err, r1) | (Inr firstByte, r1) \<Rightarrow>
      let l = (2::nat) ^ unat (drop_bit 6 (firstByte AND 0xc0));
          b1 = firstByte AND (0xff - 0xc0)
      in if l = 1 then (Inr (ucast b1), r1) else
     (case ReadByte r1 of (Inl err, r2) \<Rightarrow> (Inl err, r2) | (Inr b2, r2) \<Rightarrow>
      if l = 2 then (Inr (ucast b2 + push_bit 8 (ucast b1)), r2) else
     (case ReadByte r2 of (Inl err, r3) \<Rightarrow> (Inl err, r3) | (Inr b3, r3) \<Rightarrow>
     (case ReadByte r3 of (Inl err, r4) \<Rightarrow> (Inl err, r4) | (Inr b4, r4) \<Rightarrow>
      if l = 4 then
        (Inr (ucast b4 + push_bit 8 (ucast b3) + push_bit 16 (ucast b2)
              + push_bit 24 (ucast b1)), r4) else
     (case ReadByte r4 of (Inl err, r5) \<Rightarrow> (Inl err, r5) | (Inr b5, r5) \<Rightarrow>
     (case ReadByte r5 of (Inl err, r6) \<Rightarrow> (Inl err, r6) | (Inr b6, r6) \<Rightarrow>
     (case ReadByte r6 of (Inl err, r7) \<Rightarrow> (Inl err, r7) | (Inr b7, r7) \<Rightarrow>
     (case ReadByte r7 of (Inl err, r8) \<Rightarrow> (Inl err, r8) | (Inr b8, r8) \<Rightarrow>
        (Inr (ucast b8 + push_bit 8 (ucast b7) + push_bit 16 (ucast b6)
              + push_bit 24 (ucast b5) + push_bit 32 (ucast b4) + push_bit 40 (ucast b3)
              + push_bit 48 (ucast b2) + push_bit 56 (ucast b1)), r8)))))))))"

definition quicvarint_Append :: "byte list \<Rightarrow> uint64 \<Rightarrow> byte list option" where
  "quicvarint_Append b i =
     (if i \<le> maxVarInt1 then Some (b @ [ucast i])
      else if i \<le> maxVarInt2 then
        Some (b @ [ucast (drop_bit 8 i) OR 0x40, ucast i])
      else if i \<le> maxVarInt4 then
        Some (b @ [ucast (drop_bit 24 i) OR 0x80, ucast (drop_bit 16 i),
                   ucast (drop_bit 8 i), ucast i])
      else if i \<le> maxVarInt8 then
        Some (b @ [ucast (drop_bit 56 i) OR 0xc0, ucast (drop_bit 48 i),
                   ucast (drop_bit 40 i), ucast (drop_bit 32 i),
                   ucast (drop_bit 24 i), ucast (drop_bit 16 i),
                   ucast (drop_bit 8 i), ucast i])
      else None)"

definition quicvarint_Len :: "uint64 \<Rightarrow> int option" where
  "quicvarint_Len i =
     (if i \<le> maxVarInt1 then Some 1
      else if i \<le> maxVarInt2 then Some 2
      else if i \<le> maxVarInt4 then Some 4
      else if i \<le> maxVarInt8 then Some 8
      else None)"

section \<open>Reading and discarding (package io)\<close>

text \<open>
  Go's \<^verbatim>\<open>io.ReadFull(r, buf)\<close> with \<open>n = len(buf)\<close>: exactly \<open>n\<close> bytes, or an error. When
  the stream fails before the first byte the error is the stream's own; when it ends
  cleanly after some but not all bytes the error is \<open>ErrUnexpectedEOF\<close>. With \<open>n = 0\<close>
  nothing is read and nothing fails.
\<close>

definition io_ReadFull :: "reader \<Rightarrow> nat \<Rightarrow> (error + byte list) \<times> reader" where
  "io_ReadFull r n =
     (if n \<le> length (pending r) then
        (Inr (take n (pending r)), r\<lparr>pending := drop n (pending r)\<rparr>)
      else if pending r = [] then (Inl (final r), r)
      else (Inl (if final r = EOF then ErrUnexpectedEOF else final r), r\<lparr>pending := []\<rparr>))"

text \<open>
  Go's \<^verbatim>\<open>io.CopyN(io.Discard, r, n)\<close>, returning only its error: \<open>n\<close> bytes are read and
  dropped. A stream that stops before \<open>n\<close> bytes gives its error (\<open>EOF\<close> for a clean
  end). A count \<open>n \<le> 0\<close> reads nothing and succeeds.
\<close>

definition io_CopyN_Discard :: "reader \<Rightarrow> int \<Rightarrow> error option \<times> reader" where
  "io_CopyN_Discard r n =
     (if n \<le> 0 then (None, r)
      else if nat n \<le> length (pending r) then
        (None, r\<lparr>pending := drop (nat n) (pending r)\<rparr>)
      else (Some (final r), r\<lparr>pending := []\<rparr>))"

section \<open>Frames\<close>

text \<open>
  \<^verbatim>\<open>settingsFrame\<close>: a Go map is \<open>None\<close> when it is \<^verbatim>\<open>nil\<close> and \<open>Some m\<close> once it has
  been made. \<^verbatim>\<open>goAwayFrame\<close>: \<^verbatim>\<open>quic.StreamID\<close> is a 64-bit integer. \<^verbatim>\<open>dataFrame\<close> and
  \<^verbatim>\<open>headersFrame\<close> carry their \<^verbatim>\<open>Length\<close>. \<^verbatim>\<open>frame\<close> is \<^verbatim>\<open>any\<close> in the source; the datatype
  lists the four values \<^verbatim>\<open>ParseNext\<close> constructs.
\<close>

record settingsFrame =
  Datagram :: bool
  ExtendedConnect :: bool
  Other :: "(uint64 \<rightharpoonup> uint64) option"

record goAwayFrame =
  StreamID :: uint64

datatype frame =
    Data uint64
  | Headers uint64
  | Settings settingsFrame
  | GoAway goAwayFrame

definition settingExtendedConnect :: uint64 where "settingExtendedConnect = 0x8"

definition settingDatagram :: uint64 where "settingDatagram = 0x33"

text \<open>The entries of \<^verbatim>\<open>Other\<close>, none for a nil map.\<close>

definition other_entries :: "settingsFrame \<Rightarrow> (uint64 \<rightharpoonup> uint64)" where
  "other_entries f = (case Other f of None \<Rightarrow> Map.empty | Some m \<Rightarrow> m)"

subsection \<open>SETTINGS: encoding\<close>

text \<open>
  \<^verbatim>\<open>range\<close> over a Go map visits every entry once, in an order the language leaves open,
  and a nil map has no entry. The order is a parameter here: \<open>range_map m order\<close> are the
  entries visited when the keys come up as the list \<open>order\<close>, and \<open>iteration_order\<close> says
  that a list is such an order for a map.
\<close>

definition range_map :: "('k \<rightharpoonup> 'v) option \<Rightarrow> 'k list \<Rightarrow> ('k \<times> 'v) list" where
  "range_map m order =
     (case m of
        None \<Rightarrow> []
      | Some m' \<Rightarrow> List.map_filter (\<lambda>k. map_option (Pair k) (m' k)) order)"

definition iteration_order :: "('k \<rightharpoonup> 'v) option \<Rightarrow> 'k list \<Rightarrow> bool" where
  "iteration_order m order \<longleftrightarrow>
     distinct order \<and> set order = (case m of None \<Rightarrow> {} | Some m' \<Rightarrow> dom m')"

text \<open>Lines 174 to 176, the first loop of \<^verbatim>\<open>Append\<close>, over the entries as visited.\<close>

fun settings_len_loop :: "int \<Rightarrow> (uint64 \<times> uint64) list \<Rightarrow> int option" where
  "settings_len_loop l [] = Some l"
| "settings_len_loop l ((id', val) # rest) =
     do {
       a \<leftarrow> quicvarint_Len id';
       b \<leftarrow> quicvarint_Len val;
       settings_len_loop (l + (a + b)) rest
     }"

text \<open>Lines 173 to 182: the body length \<^verbatim>\<open>l\<close>.\<close>

definition settingsFrame_len :: "settingsFrame \<Rightarrow> uint64 list \<Rightarrow> int option" where
  "settingsFrame_len f order =
     do {
       l \<leftarrow> settings_len_loop 0 (range_map (Other f) order);
       l \<leftarrow> (if Datagram f then
              do {
                a \<leftarrow> quicvarint_Len settingDatagram;
                b \<leftarrow> quicvarint_Len 1;
                Some (l + (a + b))
              }
            else Some l);
       (if ExtendedConnect f then
          do {
            a \<leftarrow> quicvarint_Len settingExtendedConnect;
            b \<leftarrow> quicvarint_Len 1;
            Some (l + (a + b))
          }
        else Some l)
     }"

text \<open>Lines 192 to 195, the second loop of \<^verbatim>\<open>Append\<close>.\<close>

fun append_pairs :: "byte list \<Rightarrow> (uint64 \<times> uint64) list \<Rightarrow> byte list option" where
  "append_pairs b [] = Some b"
| "append_pairs b ((id', val) # rest) =
     do {
       b \<leftarrow> quicvarint_Append b id';
       b \<leftarrow> quicvarint_Append b val;
       append_pairs b rest
     }"

text \<open>
  \<^verbatim>\<open>(f *settingsFrame) Append(b)\<close>. \<open>order1\<close> and \<open>order2\<close> are the orders in which the two
  \<^verbatim>\<open>range\<close> loops visit \<^verbatim>\<open>f.Other\<close>. \<^verbatim>\<open>uint64(l)\<close> of the \<^verbatim>\<open>int\<close> \<open>l\<close> is \<open>word_of_int l\<close>.
  The result is \<open>None\<close> when a \<^verbatim>\<open>quicvarint\<close> call panics.
\<close>

definition settingsFrame_Append ::
  "settingsFrame \<Rightarrow> byte list \<Rightarrow> uint64 list \<Rightarrow> uint64 list \<Rightarrow> byte list option" where
  "settingsFrame_Append f b order1 order2 =
     do {
       b \<leftarrow> quicvarint_Append b 0x4;
       l \<leftarrow> settingsFrame_len f order1;
       b \<leftarrow> quicvarint_Append b (word_of_int l);
       b \<leftarrow> (if Datagram f then
              do {
                b \<leftarrow> quicvarint_Append b settingDatagram;
                quicvarint_Append b 1
              }
            else Some b);
       b \<leftarrow> (if ExtendedConnect f then
              do {
                b \<leftarrow> quicvarint_Append b settingExtendedConnect;
                quicvarint_Append b 1
              }
            else Some b);
       append_pairs b (range_map (Other f) order2)
     }"

section \<open>The parser and its callbacks\<close>

text \<open>
  The parser and what its calls leave behind. \<open>stream\<close> is the field \<^verbatim>\<open>r\<close>;
  \<^verbatim>\<open>quicvarint.NewReader(p.r)\<close> reads the same stream one byte at a time, so \<^verbatim>\<open>qr\<close> and
  \<^verbatim>\<open>p.r\<close> are one reader here. \<^verbatim>\<open>closeConn\<close> is a callback whose result the code drops:
  \<open>closeConn_calls\<close> lists the arguments of the calls made so far, oldest first.
  \<^verbatim>\<open>unknownFrameHandler\<close> is \<open>None\<close> when nil; otherwise it is a function of a state of
  its own (\<open>handler_state\<close>) and of its two arguments, and \<open>handler_calls\<close> lists the
  arguments of the calls made so far. The handler does not read from the stream unless
  it hijacks it.
\<close>

type_synonym 'h unknownFrameHandlerFunc =
  "'h \<Rightarrow> FrameType \<Rightarrow> error option \<Rightarrow> (bool \<times> error option) \<times> 'h"

record 'h frameParser =
  stream :: reader
  closeConn_calls :: "(uint64 \<times> string) list"
  unknownFrameHandler :: "'h unknownFrameHandlerFunc option"
  handler_state :: 'h
  handler_calls :: "(FrameType \<times> error option) list"

definition call_handler ::
  "'h unknownFrameHandlerFunc \<Rightarrow> 'h frameParser \<Rightarrow> FrameType \<Rightarrow> error option
     \<Rightarrow> (bool \<times> error option) \<times> 'h frameParser" where
  "call_handler h p t e =
     (case h (handler_state p) t e of
        (res, s') \<Rightarrow> (res, p\<lparr>handler_state := s', handler_calls := handler_calls p @ [(t, e)]\<rparr>))"

text \<open>One pass through the body of the \<^verbatim>\<open>for\<close> loop either returns or goes round again.\<close>

datatype 'a pass = Return 'a | Continue

text \<open>Lines 32 to 43: the type tag could not be read.\<close>

definition type_read_failed ::
  "'h frameParser \<Rightarrow> error \<Rightarrow> (error + frame) \<times> 'h frameParser" where
  "type_read_failed p err =
     (case unknownFrameHandler p of
        Some h \<Rightarrow>
          (case call_handler h p 0 (Some err) of
             ((hijacked, err'), p') \<Rightarrow>
               (case err' of
                  Some e \<Rightarrow> (Inl e, p')
                | None \<Rightarrow> if hijacked then (Inl errHijacked, p') else (Inl err, p')))
      | None \<Rightarrow> (Inl err, p))"

text \<open>
  Lines 45 to 54: the handler's first refusal of a type above \<open>0xd\<close>. \<open>Some e\<close> is
  \<^verbatim>\<open>return nil, e\<close>; \<open>None\<close> goes on to read the length.
\<close>

definition unknown_type_hook ::
  "'h frameParser \<Rightarrow> FrameType \<Rightarrow> error option \<times> 'h frameParser" where
  "unknown_type_hook p t =
     (if t > 0xd then
        (case unknownFrameHandler p of
           Some h \<Rightarrow>
             (case call_handler h p t None of
                ((hijacked, err), p') \<Rightarrow>
                  (case err of
                     Some e \<Rightarrow> (Some e, p')
                   | None \<Rightarrow> if hijacked then (Some errHijacked, p') else (None, p')))
         | None \<Rightarrow> (None, p))
      else (None, p))"

text \<open>Lines 76 to 79: \<^verbatim>\<open>io.CopyN(io.Discard, qr, int64(l))\<close>.\<close>

definition skip_frame :: "'h frameParser \<Rightarrow> uint64 \<Rightarrow> (error + frame) pass \<times> 'h frameParser" where
  "skip_frame p l =
     (case io_CopyN_Discard (stream p) (sint l) of
        (Some err, r') \<Rightarrow> (Return (Inl err), p\<lparr>stream := r'\<rparr>)
      | (None, r') \<Rightarrow> (Continue, p\<lparr>stream := r'\<rparr>))"

text \<open>
  A parser at the start of a stream that delivers the bytes \<open>bs\<close> and then ends cleanly,
  with no call made yet: the starting point of the examples below.
\<close>

definition fresh_parser ::
  "byte list \<Rightarrow> 'h unknownFrameHandlerFunc option \<Rightarrow> 'h \<Rightarrow> 'h frameParser" where
  "fresh_parser bs h s =
     \<lparr>stream = \<lparr>pending = bs, final = EOF\<rparr>, closeConn_calls = [],
      unknownFrameHandler = h, handler_state = s, handler_calls = []\<rparr>"

section \<open>Parsing\<close>

text \<open>
  The loops below end because a successful read of a variable-length integer takes at
  least one byte from a finite stream.
\<close>

lemma Read_Inr_shape:
  assumes "quicvarint_Read r = (Inr v, r')"
  shows "r' = r\<lparr>pending := pending r'\<rparr> \<and>
         (\<exists>enc. pending r = enc @ pending r' \<and> length enc \<in> {1, 2, 4, 8})"
  using assms
  by (auto simp: quicvarint_Read_def ReadByte_def Let_def split: list.splits if_splits)

lemma Read_Inr_length:
  assumes "quicvarint_Read r = (Inr v, r')"
  shows "length (pending r') < length (pending r)"
  using Read_Inr_shape [OF assms] by auto

subsection \<open>SETTINGS: parsing\<close>

text \<open>
  The loop of \<^verbatim>\<open>parseSettingsFrame\<close> (lines 129 to 167) over the buffered body \<open>b\<close>. The
  frame under construction and the two flags \<^verbatim>\<open>readDatagram\<close>, \<^verbatim>\<open>readExtendedConnect\<close>
  are the loop's state. A lookup in a nil map finds nothing; the map is made before the
  first store.
\<close>

function parseSettingsFrame_loop ::
  "settingsFrame \<Rightarrow> bool \<Rightarrow> bool \<Rightarrow> reader \<Rightarrow> error + settingsFrame" where
  "parseSettingsFrame_loop frame readDatagram readExtendedConnect b =
     (if length (pending b) > 0 then
        (case quicvarint_Read b of
           (Inl err, b1) \<Rightarrow> Inl err
         | (Inr id', b1) \<Rightarrow>
        (case quicvarint_Read b1 of
           (Inl err, b2) \<Rightarrow> Inl err
         | (Inr val, b2) \<Rightarrow>
             if id' = settingExtendedConnect then
               (if readExtendedConnect then Inl (DuplicateSetting id')
                else if val \<noteq> 0 \<and> val \<noteq> 1 then Inl (InvalidExtendedConnect val)
                else parseSettingsFrame_loop (frame\<lparr>ExtendedConnect := (val = 1)\<rparr>)
                       readDatagram True b2)
             else if id' = settingDatagram then
               (if readDatagram then Inl (DuplicateSetting id')
                else if val \<noteq> 0 \<and> val \<noteq> 1 then Inl (InvalidDatagram val)
                else parseSettingsFrame_loop (frame\<lparr>Datagram := (val = 1)\<rparr>)
                       True readExtendedConnect b2)
             else
               (case Other frame of
                  None \<Rightarrow>
                    parseSettingsFrame_loop (frame\<lparr>Other := Some [id' \<mapsto> val]\<rparr>)
                      readDatagram readExtendedConnect b2
                | Some m \<Rightarrow>
                    if m id' \<noteq> None then Inl (DuplicateSetting id')
                    else parseSettingsFrame_loop (frame\<lparr>Other := Some (m(id' \<mapsto> val))\<rparr>)
                           readDatagram readExtendedConnect b2)))
      else Inr frame)"
  by pat_completeness auto

termination parseSettingsFrame_loop
  apply (relation "measure (\<lambda>(frame, readDatagram, readExtendedConnect, b). length (pending b))")
   apply simp
  apply (auto dest!: Read_Inr_length [OF sym])
  done

declare parseSettingsFrame_loop.simps [simp del]

text \<open>
  \<^verbatim>\<open>parseSettingsFrame(r, l)\<close>: the size check, the buffered read of the body with
  \<^verbatim>\<open>io.ErrUnexpectedEOF\<close> turned into \<^verbatim>\<open>io.EOF\<close>, then the loop over a \<^verbatim>\<open>bytes.Reader\<close>.
  The reader is returned as the call leaves it.
\<close>

definition parseSettingsFrame :: "reader \<Rightarrow> uint64 \<Rightarrow> (error + settingsFrame) \<times> reader" where
  "parseSettingsFrame r l =
     (if l > 8 * push_bit 10 1 then (Inl (UnexpectedSettingsSize l), r)
      else
        (case io_ReadFull r (unat l) of
           (Inl err, r1) \<Rightarrow>
             if err = ErrUnexpectedEOF then (Inl EOF, r1) else (Inl err, r1)
         | (Inr buf, r1) \<Rightarrow>
             (parseSettingsFrame_loop
                \<lparr>Datagram = False, ExtendedConnect = False, Other = None\<rparr>
                False False (bytes_NewReader buf), r1)))"

subsection \<open>GOAWAY: parsing\<close>

text \<open>
  Modelled from the spec: \<^verbatim>\<open>countingByteReader\<close> is declared in a file of the package that
  is not among the source files. It wraps a byte reader and, in the words of section 4.3,
  counts "exactly how many bytes were consumed" through it: \<open>cbr_Read r r'\<close> is the value
  of its field \<^verbatim>\<open>Read\<close> once the reads through it have taken the wrapped reader from \<open>r\<close>
  to \<open>r'\<close>.
\<close>

definition cbr_Read :: "reader \<Rightarrow> reader \<Rightarrow> int" where
  "cbr_Read r r' = int (length (pending r) - length (pending r'))"

text \<open>
  \<^verbatim>\<open>parseGoAwayFrame(r, l)\<close>. \<^verbatim>\<open>int(l)\<close> is the two's-complement reading of \<open>l\<close>, and
  \<^verbatim>\<open>quic.StreamID\<close> is a 64-bit integer.
\<close>

definition parseGoAwayFrame :: "reader \<Rightarrow> uint64 \<Rightarrow> (error + goAwayFrame) \<times> reader" where
  "parseGoAwayFrame r l =
     (case quicvarint_Read r of
        (Inl err, r1) \<Rightarrow> (Inl err, r1)
      | (Inr id', r1) \<Rightarrow>
          if cbr_Read r r1 \<noteq> sint l then (Inl GoAwayInconsistentLength, r1)
          else (Inr \<lparr>StreamID = id'\<rparr>, r1))"

subsection \<open>The frame dispatcher\<close>

text \<open>
  Lines 60 to 79: the \<^verbatim>\<open>switch\<close> and the skip after it. A \<^verbatim>\<open>case\<close> with an empty body
  (\<open>0x3\<close>, \<open>0x5\<close>, \<open>0xd\<close>) and a type no \<^verbatim>\<open>case\<close> lists leave the \<^verbatim>\<open>switch\<close> and reach the
  skip. \<open>ErrCodeFrameUnexpected\<close> is a constant of the package declared outside the
  source files: it is a parameter.
\<close>

definition dispatch ::
  "uint64 \<Rightarrow> 'h frameParser \<Rightarrow> FrameType \<Rightarrow> uint64 \<Rightarrow> (error + frame) pass \<times> 'h frameParser" where
  "dispatch ErrCodeFrameUnexpected p t l =
     (if t = 0x0 then (Return (Inr (Data l)), p)
      else if t = 0x1 then (Return (Inr (Headers l)), p)
      else if t = 0x4 then
        (case parseSettingsFrame (stream p) l of
           (Inl err, r') \<Rightarrow> (Return (Inl err), p\<lparr>stream := r'\<rparr>)
         | (Inr f, r') \<Rightarrow> (Return (Inr (Settings f)), p\<lparr>stream := r'\<rparr>))
      else if t = 0x3 then skip_frame p l
      else if t = 0x5 then skip_frame p l
      else if t = 0x7 then
        (case parseGoAwayFrame (stream p) l of
           (Inl err, r') \<Rightarrow> (Return (Inl err), p\<lparr>stream := r'\<rparr>)
         | (Inr f, r') \<Rightarrow> (Return (Inr (GoAway f)), p\<lparr>stream := r'\<rparr>))
      else if t = 0xd then skip_frame p l
      else if t = 0x2 \<or> t = 0x6 \<or> t = 0x8 \<or> t = 0x9 then
        (Return (Inl (ReservedFrameType t)),
         p\<lparr>closeConn_calls := closeConn_calls p @ [(ErrCodeFrameUnexpected, '''')]\<rparr>)
      else skip_frame p l)"

text \<open>Lines 31 to 79: one pass of the loop.\<close>

definition ParseNext_pass ::
  "uint64 \<Rightarrow> 'h frameParser \<Rightarrow> (error + frame) pass \<times> 'h frameParser" where
  "ParseNext_pass ErrCodeFrameUnexpected p =
     (case quicvarint_Read (stream p) of
        (Inl err, qr) \<Rightarrow>
          (case type_read_failed (p\<lparr>stream := qr\<rparr>) err of (res, p') \<Rightarrow> (Return res, p'))
      | (Inr t, qr) \<Rightarrow>
          (case unknown_type_hook (p\<lparr>stream := qr\<rparr>) t of
             (Some e, p1) \<Rightarrow> (Return (Inl e), p1)
           | (None, p1) \<Rightarrow>
               (case quicvarint_Read (stream p1) of
                  (Inl err, qr') \<Rightarrow> (Return (Inl err), p1\<lparr>stream := qr'\<rparr>)
                | (Inr l, qr') \<Rightarrow> dispatch ErrCodeFrameUnexpected (p1\<lparr>stream := qr'\<rparr>) t l)))"

lemma call_handler_stream: "call_handler h p t e = (res, p') \<Longrightarrow> stream p' = stream p"
  by (auto simp: call_handler_def split: prod.splits)

lemma unknown_type_hook_stream: "unknown_type_hook p t = (res, p') \<Longrightarrow> stream p' = stream p"
  by (auto simp: unknown_type_hook_def split: option.splits if_splits prod.splits
      dest: call_handler_stream)

lemma skip_frame_Continue:
  "skip_frame p l = (Continue, p') \<Longrightarrow> length (pending (stream p')) \<le> length (pending (stream p))"
  by (auto simp: skip_frame_def io_CopyN_Discard_def split: if_splits)

lemma dispatch_Continue:
  "dispatch c p t l = (Continue, p') \<Longrightarrow> length (pending (stream p')) \<le> length (pending (stream p))"
  by (auto simp: dispatch_def split: if_splits prod.splits sum.splits dest: skip_frame_Continue)

lemma ParseNext_pass_Continue:
  assumes "ParseNext_pass c p = (Continue, p')"
  shows "length (pending (stream p')) < length (pending (stream p))"
  using assms
  by (auto simp: ParseNext_pass_def split: prod.splits sum.splits option.splits
      dest!: Read_Inr_length unknown_type_hook_stream dispatch_Continue)

text \<open>
  \<^verbatim>\<open>ParseNext\<close>: the loop. It ends because every pass that goes round again has consumed
  bytes of a finite stream.
\<close>

function ParseNext :: "uint64 \<Rightarrow> 'h frameParser \<Rightarrow> (error + frame) \<times> 'h frameParser" where
  "ParseNext ErrCodeFrameUnexpected p =
     (case ParseNext_pass ErrCodeFrameUnexpected p of
        (Return res, p') \<Rightarrow> (res, p')
      | (Continue, p') \<Rightarrow> ParseNext ErrCodeFrameUnexpected p')"
  by pat_completeness auto

termination ParseNext
  apply (relation "measure (\<lambda>(c, p). length (pending (stream p)))")
   apply simp
  apply (auto dest!: ParseNext_pass_Continue [OF sym])
  done

declare ParseNext.simps [simp del]

section \<open>The pairs of a SETTINGS body\<close>

text \<open>
  The key/value pairs of a buffered SETTINGS body in wire order: what the successive
  reads of the parsing loop deliver, up to the end of the buffer or the first read that
  fails (the second component is that read's error, \<open>None\<close> when the buffer ends on a
  pair boundary). \<open>settings_pairs\<close> are the pairs of a body given as bytes.
\<close>

function settings_scan :: "reader \<Rightarrow> (uint64 \<times> uint64) list \<times> error option" where
  "settings_scan b =
     (if pending b = [] then ([], None)
      else
        (case quicvarint_Read b of
           (Inl err, b1) \<Rightarrow> ([], Some err)
         | (Inr id', b1) \<Rightarrow>
        (case quicvarint_Read b1 of
           (Inl err, b2) \<Rightarrow> ([], Some err)
         | (Inr val, b2) \<Rightarrow>
             (case settings_scan b2 of (ps, tail) \<Rightarrow> ((id', val) # ps, tail)))))"
  by pat_completeness auto

termination
  apply (relation "measure (\<lambda>b. length (pending b))")
   apply simp
  apply (auto dest!: Read_Inr_length [OF sym])
  done

declare settings_scan.simps [simp del]

definition settings_pairs :: "byte list \<Rightarrow> (uint64 \<times> uint64) list" where
  "settings_pairs body = fst (settings_scan (bytes_NewReader body))"

text \<open>
  What the parsing loop does with a list of pairs already read: the body of the loop,
  pair by pair. The loop is this function applied to the pairs of the body.
\<close>

fun settings_fold ::
  "settingsFrame \<Rightarrow> bool \<Rightarrow> bool \<Rightarrow> (uint64 \<times> uint64) list \<Rightarrow> error + settingsFrame" where
  "settings_fold frame readDatagram readExtendedConnect [] = Inr frame"
| "settings_fold frame readDatagram readExtendedConnect ((id', val) # ps) =
     (if id' = settingExtendedConnect then
        (if readExtendedConnect then Inl (DuplicateSetting id')
         else if val \<noteq> 0 \<and> val \<noteq> 1 then Inl (InvalidExtendedConnect val)
         else settings_fold (frame\<lparr>ExtendedConnect := (val = 1)\<rparr>) readDatagram True ps)
      else if id' = settingDatagram then
        (if readDatagram then Inl (DuplicateSetting id')
         else if val \<noteq> 0 \<and> val \<noteq> 1 then Inl (InvalidDatagram val)
         else settings_fold (frame\<lparr>Datagram := (val = 1)\<rparr>) True readExtendedConnect ps)
      else
        (case Other frame of
           None \<Rightarrow>
             settings_fold (frame\<lparr>Other := Some [id' \<mapsto> val]\<rparr>)
               readDatagram readExtendedConnect ps
         | Some m \<Rightarrow>
             if m id' \<noteq> None then Inl (DuplicateSetting id')
             else settings_fold (frame\<lparr>Other := Some (m(id' \<mapsto> val))\<rparr>)
                    readDatagram readExtendedConnect ps))"

section \<open>Auxiliary definitions\<close>

text \<open>
  The encoded width of a value, the cost of a pair, and the pairs \<^verbatim>\<open>Append\<close> emits for the
  two flags: names for the proofs about the encoder.
\<close>

definition varint_len :: "uint64 \<Rightarrow> int" where
  "varint_len i =
     (if i \<le> maxVarInt1 then 1 else if i \<le> maxVarInt2 then 2
      else if i \<le> maxVarInt4 then 4 else 8)"

definition pair_len :: "uint64 \<times> uint64 \<Rightarrow> int" where
  "pair_len kv = varint_len (fst kv) + varint_len (snd kv)"

definition flag_pairs :: "settingsFrame \<Rightarrow> (uint64 \<times> uint64) list" where
  "flag_pairs f =
     (if Datagram f then [(settingDatagram, 1)] else []) @
     (if ExtendedConnect f then [(settingExtendedConnect, 1)] else [])"

text \<open>
  A Settings value with 513 entries in \<^verbatim>\<open>Other\<close>, keys \<open>2^30\<close> to \<open>2^30 + 512\<close>, every
  value \<open>2^30\<close>: each key and each value takes 8 bytes on the wire. \<open>many_settings_bytes\<close>
  is its encoding when \<^verbatim>\<open>range\<close> visits the keys in ascending order.
\<close>

definition many_entries :: "(uint64 \<times> uint64) list" where
  "many_entries = map (\<lambda>i. (2 ^ 30 + word_of_nat i, 2 ^ 30)) [0..<513]"

definition many_settings :: settingsFrame where
  "many_settings = \<lparr>Datagram = False, ExtendedConnect = False, Other = Some (map_of many_entries)\<rparr>"

definition many_settings_bytes :: "byte list" where
  "many_settings_bytes =
     the (settingsFrame_Append many_settings [] (map fst many_entries) (map fst many_entries))"

section \<open>Facts about the variable-length integers\<close>

lemma take_bit_and_push_bit_0: "take_bit n (x::'a::len word) AND push_bit n k = 0"
  by (rule bit_word_eqI) (auto simp: bit_simps)

lemma byte_or_high:
  fixes x :: byte
  assumes "unat x < 64" and "c = push_bit 6 k" and "unat c \<le> 192"
  shows "unat (x OR c) = unat x + unat c"
proof -
  have "take_bit 6 (unat x) = unat x" using assms(1) by (simp add: take_bit_nat_eq_self)
  then have x: "take_bit 6 x = x" by (metis unsigned_take_bit_eq word_unat_eq_iff)
  have "x AND c = 0" using take_bit_and_push_bit_0 [of 6 x k] x assms(2) by simp
  then have "x OR c = x + c" by (simp add: disjunctive_add_eq_or)
  moreover have "unat x + unat c < 2 ^ LENGTH(8)"
  proof -
    show ?thesis using assms(1,3) by simp
  qed
  ultimately show ?thesis by (simp add: unat_add_lem [THEN iffD1])
qed

lemma first_byte_low: "unat ((fb::byte) AND (0xff - 0xc0)) = unat fb mod 64"
proof -
  have "(0xff - 0xc0 :: byte) = mask 6" by (simp add: mask_eq_exp_minus_1)
  then have "fb AND (0xff - 0xc0) = take_bit 6 fb" by (simp only: take_bit_eq_mask)
  then show ?thesis by (simp add: take_bit_eq_mod unat_mod)
qed

lemma first_byte_low': "unat ((fb::byte) AND 0x3f) = unat fb mod 64"
  using first_byte_low [of fb] by simp

lemma first_byte_high: "unat (drop_bit 6 ((fb::byte) AND 0xc0)) = unat fb div 64"
proof -
  have "(3::byte) = mask 2" by (simp add: mask_eq_exp_minus_1)
  then have "drop_bit 6 fb AND 3 = take_bit 2 (drop_bit 6 fb)" by (simp only: take_bit_eq_mask)
  also have "\<dots> = drop_bit 6 fb"
    by (rule bit_word_eqI) (auto simp: bit_simps dest: bit_imp_le_length)
  finally have "drop_bit 6 (fb AND 0xc0) = drop_bit 6 fb" by simp
  then show ?thesis by (simp add: drop_bit_eq_div unat_div)
qed

lemma unat_byte_le: "unat (b::byte) \<le> 255"
  using unsigned_less [of b, where 'a = nat] by simp

lemma bytes8_of_nat:
  fixes b1 b2 b3 b4 b5 b6 b7 b8 :: byte
  shows "(ucast b8 + push_bit 8 (ucast b7) + push_bit 16 (ucast b6)
              + push_bit 24 (ucast b5) + push_bit 32 (ucast b4) + push_bit 40 (ucast b3)
              + push_bit 48 (ucast b2) + push_bit 56 (ucast b1) :: uint64)
     = of_nat (unat b8 + unat b7 * 2^8 + unat b6 * 2^16 + unat b5 * 2^24 + unat b4 * 2^32
          + unat b3 * 2^40 + unat b2 * 2^48 + unat b1 * 2^56)"
  by (simp add: push_bit_eq_mult)

lemma unat_bytes1: "unat (ucast (b1::byte) :: uint64) = unat b1"
proof -
  have "unat b1 < 2 ^ 64" using unat_byte_le [of b1] by simp
  then show ?thesis by (simp add: unsigned_ucast_eq take_bit_nat_eq_self)
qed

lemma unat_bytes2:
  fixes b1 b2 :: byte
  shows "unat (ucast b2 + push_bit 8 (ucast b1) :: uint64) = unat b2 + unat b1 * 2 ^ 8"
proof -
  have "(ucast b2 + push_bit 8 (ucast b1) :: uint64) = of_nat (unat b2 + unat b1 * 2 ^ 8)"
    by (simp add: push_bit_eq_mult)
  moreover have "unat b2 + unat b1 * 2 ^ 8 < 2 ^ 64"
    using unat_byte_le [of b2] unat_byte_le [of b1] by simp
  ultimately show ?thesis by (simp only: unat_of_nat) simp
qed

lemma unat_bytes4:
  fixes b1 b2 b3 b4 :: byte
  shows "unat (ucast b4 + push_bit 8 (ucast b3) + push_bit 16 (ucast b2)
            + push_bit 24 (ucast b1) :: uint64)
      = unat b4 + unat b3 * 2 ^ 8 + unat b2 * 2 ^ 16 + unat b1 * 2 ^ 24"
proof -
  have "(ucast b4 + push_bit 8 (ucast b3) + push_bit 16 (ucast b2)
            + push_bit 24 (ucast b1) :: uint64)
      = of_nat (unat b4 + unat b3 * 2 ^ 8 + unat b2 * 2 ^ 16 + unat b1 * 2 ^ 24)"
    by (simp add: push_bit_eq_mult)
  moreover have "unat b4 + unat b3 * 2 ^ 8 + unat b2 * 2 ^ 16 + unat b1 * 2 ^ 24 < 2 ^ 64"
    using unat_byte_le [of b4] unat_byte_le [of b3] unat_byte_le [of b2] unat_byte_le [of b1]
    by simp
  ultimately show ?thesis by (simp only: unat_of_nat) simp
qed

lemma unat_bytes8:
  fixes b1 b2 b3 b4 b5 b6 b7 b8 :: byte
  assumes "unat b1 < 64"
  shows "unat (ucast b8 + push_bit 8 (ucast b7) + push_bit 16 (ucast b6)
              + push_bit 24 (ucast b5) + push_bit 32 (ucast b4) + push_bit 40 (ucast b3)
              + push_bit 48 (ucast b2) + push_bit 56 (ucast b1) :: uint64)
     = unat b8 + unat b7 * 2^8 + unat b6 * 2^16 + unat b5 * 2^24 + unat b4 * 2^32
          + unat b3 * 2^40 + unat b2 * 2^48 + unat b1 * 2^56"
proof -
  have "unat b8 + unat b7 * 2^8 + unat b6 * 2^16 + unat b5 * 2^24 + unat b4 * 2^32
          + unat b3 * 2^40 + unat b2 * 2^48 + unat b1 * 2^56 < 2 ^ 62"
    using unat_byte_le [of b8] unat_byte_le [of b7] unat_byte_le [of b6] unat_byte_le [of b5]
      unat_byte_le [of b4] unat_byte_le [of b3] unat_byte_le [of b2] assms
    by simp
  then show ?thesis
    by (simp only: bytes8_of_nat unat_of_nat) simp
qed

lemma split_byte: "(n::nat) mod (256 * m) = (n div m mod 256) * m + n mod m"
  using mod_mult2_eq [of n m 256] by (simp add: mult.commute)

lemma nat_bytes2: "(n::nat) < 2 ^ 14 \<Longrightarrow> n mod 256 + (n div 2 ^ 8) * 2 ^ 8 = n"
  by simp

lemma nat_bytes4:
  assumes "(n::nat) < 2 ^ 30"
  shows "n mod 256 + (n div 2 ^ 8 mod 256) * 2 ^ 8 + (n div 2 ^ 16 mod 256) * 2 ^ 16
           + (n div 2 ^ 24) * 2 ^ 24 = n"
proof -
  have "n mod 2 ^ 16 = (n div 2 ^ 8 mod 256) * 2 ^ 8 + n mod 256"
    using split_byte [of n "2 ^ 8"] by simp
  moreover have "n mod 2 ^ 24 = (n div 2 ^ 16 mod 256) * 2 ^ 16 + n mod 2 ^ 16"
    using split_byte [of n "2 ^ 16"] by simp
  moreover have "n = (n div 2 ^ 24) * 2 ^ 24 + n mod 2 ^ 24"
    by simp
  ultimately show ?thesis by linarith
qed

lemma nat_bytes8:
  fixes n :: nat
  shows "n mod 256 + (n div 2 ^ 8 mod 256) * 2 ^ 8 + (n div 2 ^ 16 mod 256) * 2 ^ 16
           + (n div 2 ^ 24 mod 256) * 2 ^ 24 + (n div 2 ^ 32 mod 256) * 2 ^ 32
           + (n div 2 ^ 40 mod 256) * 2 ^ 40 + (n div 2 ^ 48 mod 256) * 2 ^ 48
           + (n div 2 ^ 56) * 2 ^ 56 = n"
proof -
  have "n mod 2 ^ 16 = (n div 2 ^ 8 mod 256) * 2 ^ 8 + n mod 256"
    using split_byte [of n "2 ^ 8"] by simp
  moreover have "n mod 2 ^ 24 = (n div 2 ^ 16 mod 256) * 2 ^ 16 + n mod 2 ^ 16"
    using split_byte [of n "2 ^ 16"] by simp
  moreover have "n mod 2 ^ 32 = (n div 2 ^ 24 mod 256) * 2 ^ 24 + n mod 2 ^ 24"
    using split_byte [of n "2 ^ 24"] by simp
  moreover have "n mod 2 ^ 40 = (n div 2 ^ 32 mod 256) * 2 ^ 32 + n mod 2 ^ 32"
    using split_byte [of n "2 ^ 32"] by simp
  moreover have "n mod 2 ^ 48 = (n div 2 ^ 40 mod 256) * 2 ^ 40 + n mod 2 ^ 40"
    using split_byte [of n "2 ^ 40"] by simp
  moreover have "n mod 2 ^ 56 = (n div 2 ^ 48 mod 256) * 2 ^ 48 + n mod 2 ^ 48"
    using split_byte [of n "2 ^ 48"] by simp
  moreover have "n = (n div 2 ^ 56) * 2 ^ 56 + n mod 2 ^ 56"
    by simp
  ultimately show ?thesis by linarith
qed

lemma unat_byte_of0: "unat (ucast (i::uint64) :: byte) = unat i mod 256"
  by (simp add: unsigned_ucast_eq take_bit_eq_mod)

lemma unat_byte_of: "unat (ucast (drop_bit k (i::uint64)) :: byte) = unat i div 2 ^ k mod 256"
proof -
  have "unat (drop_bit k i) = unat i div 2 ^ k"
    by (simp only: unat_drop_bit_eq) (simp add: drop_bit_eq_div)
  then show ?thesis by (simp only: unat_byte_of0)
qed

lemma Read_Inl:
  assumes "quicvarint_Read r = (Inl e, r')"
  shows "e = final r \<and> r' = r\<lparr>pending := []\<rparr>"
  using assms
  by (auto simp: quicvarint_Read_def ReadByte_def Let_def split: list.splits if_splits)

lemma Read_1:
  assumes "pending r = fb # rest" "unat fb div 64 = 0"
  shows "quicvarint_Read r = (Inr (ucast (fb AND 0x3f)), r\<lparr>pending := rest\<rparr>)"
  using assms first_byte_high [of fb]
  by (simp add: quicvarint_Read_def ReadByte_def Let_def)

lemma Read_2:
  assumes "pending r = fb # b2 # rest" "unat fb div 64 = 1"
  shows "quicvarint_Read r =
    (Inr (ucast b2 + push_bit 8 (ucast (fb AND 0x3f))), r\<lparr>pending := rest\<rparr>)"
  using assms first_byte_high [of fb]
  by (simp add: quicvarint_Read_def ReadByte_def Let_def)

lemma Read_4:
  assumes "pending r = fb # b2 # b3 # b4 # rest" "unat fb div 64 = 2"
  shows "quicvarint_Read r =
    (Inr (ucast b4 + push_bit 8 (ucast b3) + push_bit 16 (ucast b2)
            + push_bit 24 (ucast (fb AND 0x3f))), r\<lparr>pending := rest\<rparr>)"
  using assms first_byte_high [of fb]
  by (simp add: quicvarint_Read_def ReadByte_def Let_def)

lemma Read_8:
  assumes "pending r = fb # b2 # b3 # b4 # b5 # b6 # b7 # b8 # rest" "unat fb div 64 = 3"
  shows "quicvarint_Read r =
    (Inr (ucast b8 + push_bit 8 (ucast b7) + push_bit 16 (ucast b6)
              + push_bit 24 (ucast b5) + push_bit 32 (ucast b4) + push_bit 40 (ucast b3)
              + push_bit 48 (ucast b2) + push_bit 56 (ucast (fb AND 0x3f))),
     r\<lparr>pending := rest\<rparr>)"
  using assms first_byte_high [of fb]
  by (simp add: quicvarint_Read_def ReadByte_def Let_def)

lemma Read_Inr_bound:
  assumes "quicvarint_Read r = (Inr v, r')"
  shows "v \<le> maxVarInt8"
proof -
  have le: "unat b \<le> 255" "unat (b AND 0x3f) < 64" for b :: byte
    using unat_byte_le [of b] by (simp_all add: first_byte_low')
  have "unat v < 2 ^ 62"
    using assms
      le [of "hd (pending r)"]
      le(1) [of "pending r ! 1"] le(1) [of "pending r ! 2"] le(1) [of "pending r ! 3"]
      le(1) [of "pending r ! 4"] le(1) [of "pending r ! 5"] le(1) [of "pending r ! 6"]
      le(1) [of "pending r ! 7"]
    by (auto simp: quicvarint_Read_def ReadByte_def Let_def unat_bytes1 unat_bytes2
        unat_bytes4 unat_bytes8 split: list.splits if_splits)
  then show ?thesis by (simp add: maxVarInt8_def word_le_nat_alt)
qed

lemma Read_Append_1:
  assumes "i \<le> maxVarInt1" "pending r = ucast i # rest"
  shows "quicvarint_Read r = (Inr i, r\<lparr>pending := rest\<rparr>)"
proof -
  let ?fb = "ucast i :: byte"
  have i: "unat i < 64" using assms(1) by (simp add: maxVarInt1_def word_le_nat_alt)
  then have fb: "unat ?fb = unat i" by (simp add: unat_byte_of0)
  have "unat (ucast (?fb AND 0x3f) :: uint64) = unat i"
    using i by (simp add: unat_bytes1 first_byte_low' fb)
  then have "(ucast (?fb AND 0x3f) :: uint64) = i" by (simp only: word_unat_eq_iff)
  moreover have "unat ?fb div 64 = 0" using i fb by simp
  ultimately show ?thesis using Read_1 [OF assms(2)] by simp
qed

lemma Read_Append_2:
  assumes "\<not> i \<le> maxVarInt1" "i \<le> maxVarInt2"
    "pending r = (ucast (drop_bit 8 i) OR 0x40) # ucast i # rest"
  shows "quicvarint_Read r = (Inr i, r\<lparr>pending := rest\<rparr>)"
proof -
  let ?x = "ucast (drop_bit 8 i) :: byte"
  let ?fb = "?x OR 0x40"
  have i: "unat i < 2 ^ 14" using assms(2) by (simp add: maxVarInt2_def word_le_nat_alt)
  then have x: "unat ?x = unat i div 2 ^ 8" "unat ?x < 64" by (simp_all add: unat_byte_of)
  have fb: "unat ?fb = unat ?x + 64"
    using byte_or_high [of ?x "0x40" 1] x(2) by simp
  have k: "unat ?fb div 64 = 1" using fb x(2) by simp
  have low: "unat (?fb AND 0x3f) = unat ?x" using fb x(2) by (simp add: first_byte_low')
  have "unat (ucast (ucast i :: byte) + push_bit 8 (ucast (?fb AND 0x3f)) :: uint64) = unat i"
    using nat_bytes2 [OF i] unat_byte_of0 [of i] by (simp only: unat_bytes2 low x(1))
  then have "(ucast (ucast i :: byte) + push_bit 8 (ucast (?fb AND 0x3f)) :: uint64) = i"
    by (simp only: word_unat_eq_iff)
  then show ?thesis using Read_2 [OF assms(3) k] by simp
qed

lemma Read_Append_4:
  assumes "\<not> i \<le> maxVarInt2" "i \<le> maxVarInt4"
    "pending r = (ucast (drop_bit 24 i) OR 0x80) # ucast (drop_bit 16 i)
        # ucast (drop_bit 8 i) # ucast i # rest"
  shows "quicvarint_Read r = (Inr i, r\<lparr>pending := rest\<rparr>)"
proof -
  let ?x = "ucast (drop_bit 24 i) :: byte"
  let ?fb = "?x OR 0x80"
  let ?w = "ucast (ucast i :: byte) + push_bit 8 (ucast (ucast (drop_bit 8 i) :: byte))
      + push_bit 16 (ucast (ucast (drop_bit 16 i) :: byte))
      + push_bit 24 (ucast (?fb AND 0x3f)) :: uint64"
  have i: "unat i < 2 ^ 30" using assms(2) by (simp add: maxVarInt4_def word_le_nat_alt)
  then have x: "unat ?x = unat i div 2 ^ 24" "unat ?x < 64" by (simp_all add: unat_byte_of)
  have fb: "unat ?fb = unat ?x + 128"
    using byte_or_high [of ?x "0x80" 2] x(2) by simp
  have k: "unat ?fb div 64 = 2" using fb x(2) by simp
  have "(unat ?x + 128) mod 64 = unat ?x" using x(2) mod_mult_self2 [of "unat ?x" 64 2] by simp
  then have low: "unat (?fb AND 0x3f) = unat ?x" by (simp add: first_byte_low' fb)
  have "unat ?w = unat i"
    using nat_bytes4 [OF i] unat_byte_of0 [of i] x(1) [unfolded unat_byte_of]
    by (simp only: unat_bytes4 low unat_byte_of)
  then have "?w = i" by (simp only: word_unat_eq_iff)
  then show ?thesis using Read_4 [OF assms(3) k] by simp
qed

lemma Read_Append_8:
  assumes "\<not> i \<le> maxVarInt4" "i \<le> maxVarInt8"
    "pending r = (ucast (drop_bit 56 i) OR 0xc0) # ucast (drop_bit 48 i)
        # ucast (drop_bit 40 i) # ucast (drop_bit 32 i) # ucast (drop_bit 24 i)
        # ucast (drop_bit 16 i) # ucast (drop_bit 8 i) # ucast i # rest"
  shows "quicvarint_Read r = (Inr i, r\<lparr>pending := rest\<rparr>)"
proof -
  let ?x = "ucast (drop_bit 56 i) :: byte"
  let ?fb = "?x OR 0xc0"
  let ?w = "ucast (ucast i :: byte) + push_bit 8 (ucast (ucast (drop_bit 8 i) :: byte))
      + push_bit 16 (ucast (ucast (drop_bit 16 i) :: byte))
      + push_bit 24 (ucast (ucast (drop_bit 24 i) :: byte))
      + push_bit 32 (ucast (ucast (drop_bit 32 i) :: byte))
      + push_bit 40 (ucast (ucast (drop_bit 40 i) :: byte))
      + push_bit 48 (ucast (ucast (drop_bit 48 i) :: byte))
      + push_bit 56 (ucast (?fb AND 0x3f)) :: uint64"
  have i: "unat i < 2 ^ 62" using assms(2) by (simp add: maxVarInt8_def word_le_nat_alt)
  then have x: "unat ?x = unat i div 2 ^ 56" "unat ?x < 64" by (simp_all add: unat_byte_of)
  have fb: "unat ?fb = unat ?x + 192"
    using byte_or_high [of ?x "0xc0" 3] x(2) by simp
  have k: "unat ?fb div 64 = 3" using fb x(2) by simp
  have "(unat ?x + 192) mod 64 = unat ?x" using x(2) mod_mult_self2 [of "unat ?x" 64 3] by simp
  then have low: "unat (?fb AND 0x3f) = unat ?x" "unat (?fb AND 0x3f) < 64"
    by (simp_all add: first_byte_low' fb)
  have "unat ?w = unat i"
    using nat_bytes8 [of "unat i"] unat_byte_of0 [of i] x(1) [unfolded unat_byte_of]
    by (simp only: unat_bytes8 [OF low(2)] low(1) unat_byte_of)
  then have "?w = i" by (simp only: word_unat_eq_iff)
  then show ?thesis using Read_8 [OF assms(3) k] by simp
qed

lemma Append_eq: "quicvarint_Append b i = map_option ((@) b) (quicvarint_Append [] i)"
  by (simp add: quicvarint_Append_def)

lemma Read_Append:
  assumes "quicvarint_Append [] i = Some enc" "pending r = enc @ rest"
  shows "quicvarint_Read r = (Inr i, r\<lparr>pending := rest\<rparr>)"
proof -
  consider "i \<le> maxVarInt1" | "\<not> i \<le> maxVarInt1" "i \<le> maxVarInt2"
    | "\<not> i \<le> maxVarInt2" "i \<le> maxVarInt4" | "\<not> i \<le> maxVarInt4" "i \<le> maxVarInt8"
    | "\<not> i \<le> maxVarInt8" by blast
  then show ?thesis
  proof cases
    case 1
    then show ?thesis using assms Read_Append_1 [of i r rest]
      by (simp add: quicvarint_Append_def)
  next
    case 2
    then show ?thesis using assms Read_Append_2 [of i r rest]
      by (simp add: quicvarint_Append_def)
  next
    case 3
    have "\<not> i \<le> maxVarInt1" using 3(1) by (simp add: maxVarInt1_def maxVarInt2_def word_le_nat_alt)
    then show ?thesis using 3 assms Read_Append_4 [of i r rest]
      by (simp add: quicvarint_Append_def)
  next
    case 4
    have "\<not> i \<le> maxVarInt2" using 4(1) by (simp add: maxVarInt4_def maxVarInt2_def word_le_nat_alt)
    moreover have "\<not> i \<le> maxVarInt1" using 4(1) by (simp add: maxVarInt1_def maxVarInt4_def word_le_nat_alt)
    ultimately show ?thesis using 4 assms Read_Append_8 [of i r rest]
      by (simp add: quicvarint_Append_def)
  next
    case 5
    have "\<not> i \<le> maxVarInt4" using 5 by (simp add: maxVarInt4_def maxVarInt8_def word_le_nat_alt)
    moreover have "\<not> i \<le> maxVarInt2" using 5 by (simp add: maxVarInt8_def maxVarInt2_def word_le_nat_alt)
    moreover have "\<not> i \<le> maxVarInt1" using 5 by (simp add: maxVarInt1_def maxVarInt8_def word_le_nat_alt)
    ultimately show ?thesis using 5 assms by (simp add: quicvarint_Append_def)
  qed
qed

lemma Append_Nil_facts:
  assumes "quicvarint_Append [] i = Some enc"
  shows "enc \<noteq> []" "quicvarint_Len i = Some (int (length enc))" "i \<le> maxVarInt8"
proof -
  have "i \<le> maxVarInt1 \<Longrightarrow> i \<le> maxVarInt8" "i \<le> maxVarInt2 \<Longrightarrow> i \<le> maxVarInt8"
    "i \<le> maxVarInt4 \<Longrightarrow> i \<le> maxVarInt8"
    by (simp_all add: maxVarInt1_def maxVarInt2_def maxVarInt4_def maxVarInt8_def word_le_nat_alt)
  then show "enc \<noteq> []" "quicvarint_Len i = Some (int (length enc))" "i \<le> maxVarInt8"
    using assms
    by (auto simp: quicvarint_Append_def quicvarint_Len_def split: if_splits)
qed

lemma Append_const:
  "quicvarint_Append b 1 = Some (b @ [1])"
  "quicvarint_Append b settingDatagram = Some (b @ [0x33])"
  "quicvarint_Append b settingExtendedConnect = Some (b @ [0x8])"
  by (simp_all add: quicvarint_Append_def maxVarInt1_def settingDatagram_def
      settingExtendedConnect_def)

lemma Len_Some: "quicvarint_Len i = Some n \<Longrightarrow> n = varint_len i"
  by (auto simp: quicvarint_Len_def varint_len_def split: if_splits)

lemma sint_unat:
  fixes l :: uint64
  assumes "unat l < 2 ^ 63"
  shows "sint l = int (unat l)"
proof -
  have "int (unat l) < int (2 ^ 63)" using assms by (simp only: of_nat_less_iff)
  then have a: "uint l < 2 ^ 63" by simp
  have "(0::int) \<le> uint l" by simp
  then have b: "- (2 ^ 63) \<le> uint l" by (rule order_trans [rotated]) simp
  have "signed_take_bit 63 (uint l) = uint l"
    using b a by (rule signed_take_bit_int_eq_self)
  then show ?thesis by (simp add: sint_uint)
qed

lemma small_sint_unat:
  fixes l :: uint64
  assumes "n \<le> 8"
  shows "int n = sint l \<longleftrightarrow> n = unat l"
proof
  assume a: "int n = sint l"
  have "l = word_of_int (sint l)" by simp
  then have "l = of_nat n" using a by (metis of_int_of_nat_eq)
  then show "n = unat l" using assms by (simp add: unat_of_nat)
next
  assume a: "n = unat l"
  then have "unat l < 2 ^ 63" using assms by simp
  then have "sint l = int (unat l)" by (rule sint_unat)
  then show "int n = sint l" using a by simp
qed

section \<open>Facts about the loops\<close>

lemma ParseNext_Return:
  "ParseNext_pass c p = (Return res, p') \<Longrightarrow> ParseNext c p = (res, p')"
  by (subst ParseNext.simps) simp

lemma ParseNext_Continue:
  "ParseNext_pass c p = (Continue, p') \<Longrightarrow> ParseNext c p = ParseNext c p'"
  by (subst ParseNext.simps) simp

lemma ParseNext_Return_fst:
  "fst (ParseNext_pass c p) = Return res \<Longrightarrow> fst (ParseNext c p) = res"
  by (cases "ParseNext_pass c p") (simp add: ParseNext_Return)

lemma loop_eq_fold:
  "parseSettingsFrame_loop frame rd re b =
     (case settings_scan b of
        (ps, tail) \<Rightarrow>
          (case settings_fold frame rd re ps of
             Inl e \<Rightarrow> Inl e
           | Inr f \<Rightarrow> (case tail of None \<Rightarrow> Inr f | Some e \<Rightarrow> Inl e)))"
proof (induction "length (pending b)" arbitrary: b frame rd re rule: less_induct)
  case less
  show ?case
  proof (cases "pending b = []")
    case True
    then show ?thesis
      by (subst parseSettingsFrame_loop.simps, subst settings_scan.simps) simp
  next
    case False
    obtain x b1 where r1: "quicvarint_Read b = (x, b1)" by (cases "quicvarint_Read b")
    show ?thesis
    proof (cases x)
      case (Inl e)
      then show ?thesis using False r1
        by (subst parseSettingsFrame_loop.simps, subst settings_scan.simps) simp
    next
      case k: (Inr k)
      obtain y b2 where r2: "quicvarint_Read b1 = (y, b2)" by (cases "quicvarint_Read b1")
      show ?thesis
      proof (cases y)
        case (Inl e)
        then show ?thesis using False r1 k r2
          by (subst parseSettingsFrame_loop.simps, subst settings_scan.simps) simp
      next
        case v: (Inr v)
        have "length (pending b2) < length (pending b)"
          using Read_Inr_length [of b k b1] Read_Inr_length [of b1 v b2] r1 r2 k v by simp
        note IH = less.hyps [OF this]
        obtain ps tail where sc: "settings_scan b2 = (ps, tail)" by (cases "settings_scan b2")
        have lhs: "parseSettingsFrame_loop frame rd re b =
          (case settings_fold frame rd re ((k, v) # ps) of
             Inl e \<Rightarrow> Inl e
           | Inr f \<Rightarrow> (case tail of None \<Rightarrow> Inr f | Some e \<Rightarrow> Inl e))"
          using False r1 k r2 v
          by (subst parseSettingsFrame_loop.simps) (simp add: IH sc split: option.splits)
        have rhs: "settings_scan b = ((k, v) # ps, tail)"
          using False r1 k r2 v sc by (subst settings_scan.simps) simp
        show ?thesis by (simp only: lhs rhs prod.case)
      qed
    qed
  qed
qed

lemma parseSettingsFrame_fold:
  assumes "l \<le> 8192" and "pending r = body @ rest" and "unat l = length body"
  shows "parseSettingsFrame r l =
    (case settings_scan (bytes_NewReader body) of
       (ps, tail) \<Rightarrow>
         (case settings_fold \<lparr>Datagram = False, ExtendedConnect = False, Other = None\<rparr>
                 False False ps of
            Inl e \<Rightarrow> Inl e
          | Inr f \<Rightarrow> (case tail of None \<Rightarrow> Inr f | Some e \<Rightarrow> Inl e)),
     r\<lparr>pending := rest\<rparr>)"
proof -
  have "\<not> 8192 < l" using assms(1) by simp
  then show ?thesis
    using assms(2,3) by (simp add: parseSettingsFrame_def io_ReadFull_def loop_eq_fold)
qed

lemma fold_duplicate:
  assumes "rd \<longleftrightarrow> settingDatagram \<in> seen"
    and "re \<longleftrightarrow> settingExtendedConnect \<in> seen"
    and "\<And>x. x \<noteq> settingDatagram \<Longrightarrow> x \<noteq> settingExtendedConnect \<Longrightarrow>
           x \<in> seen \<longleftrightarrow> x \<in> dom (other_entries frame)"
    and "distinct (map fst pre)"
    and "fst ` set pre \<inter> seen = {}"
    and "k \<in> fst ` set pre \<union> seen"
    and "\<And>x y. (x, y) \<in> set pre \<Longrightarrow> x = settingDatagram \<or> x = settingExtendedConnect \<Longrightarrow>
           y = 0 \<or> y = 1"
  shows "settings_fold frame rd re (pre @ (k, v) # post) = Inl (DuplicateSetting k)"
  using assms
proof (induction pre arbitrary: frame rd re seen)
  case Nil
  then show ?case
    by (auto simp: other_entries_def settingDatagram_def settingExtendedConnect_def
        split: option.splits)
next
  case (Cons a pre)
  obtain k0 v0 where a: "a = (k0, v0)" by (cases a)
  have fresh: "k0 \<notin> seen" using Cons.prems(5) a by auto
  have valid: "k0 = settingDatagram \<or> k0 = settingExtendedConnect \<Longrightarrow> v0 = 0 \<or> v0 = 1"
    using Cons.prems(7) [of k0 v0] a by simp
  have rest: "distinct (map fst pre)" "fst ` set pre \<inter> insert k0 seen = {}"
    "k \<in> fst ` set pre \<union> insert k0 seen"
    "\<And>x y. (x, y) \<in> set pre \<Longrightarrow> x = settingDatagram \<or> x = settingExtendedConnect \<Longrightarrow>
           y = 0 \<or> y = 1"
    using Cons.prems(4,5,6,7) a by auto
  consider (ec) "k0 = settingExtendedConnect" | (dg) "k0 = settingDatagram"
    | (other) "k0 \<noteq> settingExtendedConnect" "k0 \<noteq> settingDatagram" by blast
  then show ?case
  proof cases
    case ec
    have "settings_fold (frame\<lparr>ExtendedConnect := (v0 = 1)\<rparr>) rd True (pre @ (k, v) # post) =
        Inl (DuplicateSetting k)"
      using Cons.prems(1,3) ec
      by (intro Cons.IH [where seen = "insert k0 seen"] rest)
        (auto simp: other_entries_def settingDatagram_def settingExtendedConnect_def)
    then show ?thesis using ec fresh valid Cons.prems(2) a by auto
  next
    case dg
    have "settings_fold (frame\<lparr>Datagram := (v0 = 1)\<rparr>) True re (pre @ (k, v) # post) =
        Inl (DuplicateSetting k)"
      using Cons.prems(2,3) dg
      by (intro Cons.IH [where seen = "insert k0 seen"] rest)
        (auto simp: other_entries_def settingDatagram_def settingExtendedConnect_def)
    then show ?thesis using dg fresh valid Cons.prems(1) a
      by (auto simp: settingDatagram_def settingExtendedConnect_def)
  next
    case other
    have nk: "k0 \<notin> dom (other_entries frame)" using Cons.prems(3) [of k0] other fresh by simp
    have "settings_fold (frame\<lparr>Other := Some ((other_entries frame)(k0 \<mapsto> v0))\<rparr>) rd re
        (pre @ (k, v) # post) = Inl (DuplicateSetting k)"
      using Cons.prems(1,2,3) other
      by (intro Cons.IH [where seen = "insert k0 seen"] rest)
        (auto simp: other_entries_def)
    then show ?thesis using other nk a
      by (auto simp: other_entries_def split: option.splits)
  qed
qed

lemma fold_other_ok:
  assumes "settings_fold frame rd re ps = Inr f"
    and "\<forall>m. Other frame = Some m \<longrightarrow>
           m \<noteq> Map.empty \<and> m settingExtendedConnect = None \<and> m settingDatagram = None"
  shows "(\<forall>m. Other f = Some m \<longrightarrow>
           m \<noteq> Map.empty \<and> m settingExtendedConnect = None \<and> m settingDatagram = None) \<and>
         dom (other_entries f) \<subseteq> dom (other_entries frame) \<union> fst ` set ps"
  using assms
proof (induction frame rd re ps rule: settings_fold.induct)
  case (1 frame rd re)
  then show ?case by simp
next
  case (2 frame rd re k v ps)
  let ?ok = "\<lambda>g. \<forall>m. Other g = Some m \<longrightarrow>
           m \<noteq> Map.empty \<and> m settingExtendedConnect = None \<and> m settingDatagram = None"
  have step: "?ok f \<and> dom (other_entries f) \<subseteq> dom (other_entries frame) \<union> fst ` set ((k, v) # ps)"
    if ih: "?ok f \<and> dom (other_entries f) \<subseteq> dom (other_entries frame') \<union> fst ` set ps"
      and d: "dom (other_entries frame') \<subseteq> insert k (dom (other_entries frame))"
    for frame'
  proof -
    have "dom (other_entries f) \<subseteq> dom (other_entries frame) \<union> insert k (fst ` set ps)"
      using ih d by blast
    then show ?thesis using ih by simp
  qed
  consider (ec) "k = settingExtendedConnect" | (dg) "k = settingDatagram"
    | (other) "k \<noteq> settingExtendedConnect" "k \<noteq> settingDatagram" by blast
  then show ?case
  proof cases
    case ec
    then have run: "settings_fold (frame\<lparr>ExtendedConnect := (v = 1)\<rparr>) rd True ps = Inr f"
      and c: "\<not> re" "\<not> (v \<noteq> 0 \<and> v \<noteq> 1)"
      using "2.prems"(1) by (auto split: if_splits)
    have "?ok (frame\<lparr>ExtendedConnect := (v = 1)\<rparr>)" using "2.prems"(2) by simp
    from "2.IH"(1) [OF ec c run this] show ?thesis
      by (rule step) (simp add: other_entries_def subset_insertI)
  next
    case dg
    then have ne: "k \<noteq> settingExtendedConnect"
      by (simp add: settingDatagram_def settingExtendedConnect_def)
    have run: "settings_fold (frame\<lparr>Datagram := (v = 1)\<rparr>) True re ps = Inr f"
      and c: "\<not> rd" "\<not> (v \<noteq> 0 \<and> v \<noteq> 1)"
      using "2.prems"(1) dg ne by (auto split: if_splits)
    have "?ok (frame\<lparr>Datagram := (v = 1)\<rparr>)" using "2.prems"(2) by simp
    from "2.IH"(2) [OF ne dg c run this] show ?thesis
      by (rule step) (simp add: other_entries_def subset_insertI)
  next
    case other
    show ?thesis
    proof (cases "Other frame")
      case None
      then have run: "settings_fold (frame\<lparr>Other := Some [k \<mapsto> v]\<rparr>) rd re ps = Inr f"
        using "2.prems"(1) other by simp
      have m: "[k \<mapsto> v] \<noteq> Map.empty" by simp
      have "?ok (frame\<lparr>Other := Some [k \<mapsto> v]\<rparr>)" using other m by simp
      from "2.IH"(3) [OF other None run this] show ?thesis
        by (rule step) (simp add: other_entries_def)
    next
      case (Some m)
      then have c: "\<not> m k \<noteq> None"
        and run: "settings_fold (frame\<lparr>Other := Some (m(k \<mapsto> v))\<rparr>) rd re ps = Inr f"
        using "2.prems"(1) other by (auto split: if_splits)
      have m: "m(k \<mapsto> v) \<noteq> Map.empty" by simp
      have "?ok (frame\<lparr>Other := Some (m(k \<mapsto> v))\<rparr>)"
        using other m "2.prems"(2) Some by simp
      from "2.IH"(4) [OF other Some c run this] show ?thesis
        by (rule step) (simp add: other_entries_def Some)
    qed
  qed
qed

lemma fold_fresh:
  assumes "distinct (map fst ps)"
    and "\<forall>k \<in> fst ` set ps.
           k \<noteq> settingExtendedConnect \<and> k \<noteq> settingDatagram \<and> k \<notin> dom (other_entries frame)"
  shows "settings_fold frame rd re ps =
    Inr (frame\<lparr>Other := (if ps = [] then Other frame
                          else Some (other_entries frame ++ map_of ps))\<rparr>)"
  using assms
proof (induction ps arbitrary: frame)
  case Nil
  then show ?case by simp
next
  case (Cons a ps)
  obtain k v where a: "a = (k, v)" by (cases a)
  let ?m = "other_entries frame"
  let ?frame' = "frame\<lparr>Other := Some (?m(k \<mapsto> v))\<rparr>"
  have k: "k \<noteq> settingExtendedConnect" "k \<noteq> settingDatagram" "?m k = None"
    using Cons.prems(2) a by auto
  have nk: "map_of ps k = None" using Cons.prems(1) a by (simp add: map_of_eq_None_iff)
  have step: "settings_fold frame rd re (a # ps) = settings_fold ?frame' rd re ps"
    using k a by (auto simp: other_entries_def split: option.splits)
  have e': "other_entries ?frame' = ?m(k \<mapsto> v)" by (simp add: other_entries_def)
  have d: "distinct (map fst ps)" "k \<notin> fst ` set ps" using Cons.prems(1) a by simp_all
  have "\<forall>x \<in> fst ` set ps.
      x \<noteq> settingExtendedConnect \<and> x \<noteq> settingDatagram \<and> x \<notin> dom (other_entries ?frame')"
  proof
    fix x assume x: "x \<in> fst ` set ps"
    then have "x \<noteq> k" using d(2) by blast
    moreover have "x \<noteq> settingExtendedConnect \<and> x \<noteq> settingDatagram \<and> x \<notin> dom ?m"
      using Cons.prems(2) x by auto
    ultimately show "x \<noteq> settingExtendedConnect \<and> x \<noteq> settingDatagram \<and>
        x \<notin> dom (other_entries ?frame')"
      by (simp add: e' domIff)
  qed
  with d(1) have "settings_fold ?frame' rd re ps =
    Inr (?frame'\<lparr>Other := (if ps = [] then Other ?frame'
                          else Some (other_entries ?frame' ++ map_of ps))\<rparr>)"
    by (rule Cons.IH)
  moreover have "(?m(k \<mapsto> v)) ++ map_of ps = ?m ++ map_of (a # ps)"
    using nk a by (auto simp: map_add_def fun_eq_iff split: option.splits)
  moreover have "?m(k \<mapsto> v) = ?m ++ map_of [a]" using a by simp
  ultimately show ?case using step e' by (cases ps) simp_all
qed

lemma fold_flags:
  "settings_fold \<lparr>Datagram = False, ExtendedConnect = False, Other = None\<rparr> False False
     (flag_pairs f @ ps) =
   settings_fold \<lparr>Datagram = Datagram f, ExtendedConnect = ExtendedConnect f, Other = None\<rparr>
     (Datagram f) (ExtendedConnect f) ps"
  by (simp add: flag_pairs_def settingDatagram_def settingExtendedConnect_def)

section \<open>Facts about the encoder\<close>

lemma range_map_no_entries: "range_map None order = []" "range_map (Some Map.empty) order = []"
  by (simp_all add: range_map_def List.map_filter_def)

lemma range_map_order:
  assumes "iteration_order (Some m) order"
  shows "range_map (Some m) order = map (\<lambda>k. (k, the (m k))) order"
proof -
  have "set order \<subseteq> dom m" using assms by (simp add: iteration_order_def)
  then have "List.map_filter (\<lambda>k. map_option (Pair k) (m k)) order =
      map (\<lambda>k. (k, the (m k))) order"
    by (induction order) (auto simp: List.map_filter_simps)
  then show ?thesis by (simp add: range_map_def)
qed

lemma map_of_range_map:
  assumes "iteration_order (Some m) order"
  shows "map_of (range_map (Some m) order) = m"
proof
  fix x
  have s: "set order = dom m" using assms by (simp add: iteration_order_def)
  have "map_of (map (\<lambda>k. (k, the (m k))) order) x = (if x \<in> set order then Some (the (m x)) else None)"
    by (induction order) auto
  then show "map_of (range_map (Some m) order) x = m x"
    using s by (auto simp: range_map_order [OF assms])
qed

lemma range_map_keys:
  assumes "iteration_order (Some m) order"
  shows "map fst (range_map (Some m) order) = order"
  by (simp add: range_map_order [OF assms] comp_def)

lemma order_sum:
  fixes h :: "'a \<times> 'b \<Rightarrow> int"
  assumes "iteration_order m order1" and "iteration_order m order2"
  shows "sum_list (map h (range_map m order1)) = sum_list (map h (range_map m order2))"
proof (cases m)
  case None
  then show ?thesis by (simp add: range_map_def)
next
  case (Some m')
  let ?g = "\<lambda>k. h (k, the (m' k))"
  have d: "distinct order1" "distinct order2" "set order1 = set order2"
    using assms Some by (simp_all add: iteration_order_def)
  have "sum_list (map ?g order1) = sum ?g (set order1)"
    using d(1) by (rule sum_list_distinct_conv_sum_set)
  moreover have "sum_list (map ?g order2) = sum ?g (set order2)"
    using d(2) by (rule sum_list_distinct_conv_sum_set)
  ultimately show ?thesis
    using assms Some d(3) by (simp add: range_map_order comp_def)
qed

lemma append_pairs_prefix:
  "append_pairs b ps = map_option ((@) b) (append_pairs [] ps)"
proof (induction ps arbitrary: b)
  case Nil
  then show ?case by simp
next
  case (Cons a ps)
  obtain k v where a: "a = (k, v)" by (cases a)
  show ?case
  proof (cases "quicvarint_Append [] k")
    case None
    then show ?thesis using a by (simp add: Append_eq [of b])
  next
    case ek: (Some ek)
    show ?thesis
    proof (cases "quicvarint_Append [] v")
      case None
      then show ?thesis using a ek by (simp add: Append_eq [of b] Append_eq [of "b @ ek"] Append_eq [of ek])
    next
      case ev: (Some ev)
      have "append_pairs (b @ ek @ ev) ps = map_option ((@) (b @ ek @ ev)) (append_pairs [] ps)"
        "append_pairs (ek @ ev) ps = map_option ((@) (ek @ ev)) (append_pairs [] ps)"
        using Cons.IH by blast+
      moreover have "(@) (b @ ek @ ev) = (\<lambda>x. b @ ek @ ev @ x)" by (simp add: fun_eq_iff)
      ultimately show ?thesis using a ek ev
        by (simp add: Append_eq [of b] Append_eq [of "b @ ek"] Append_eq [of ek]
            option.map_comp comp_def)
    qed
  qed
qed

lemma append_pairs_Cons:
  assumes "append_pairs [] ((k, v) # ps) = Some w"
  obtains ek ev w' where "quicvarint_Append [] k = Some ek" "quicvarint_Append [] v = Some ev"
    "append_pairs [] ps = Some w'" "w = ek @ ev @ w'"
proof -
  from assms obtain ek where ek: "quicvarint_Append [] k = Some ek"
    by (cases "quicvarint_Append [] k") simp_all
  from assms ek obtain ev where ev: "quicvarint_Append [] v = Some ev"
    by (cases "quicvarint_Append [] v") (simp_all add: Append_eq [of ek])
  from assms ek ev have "append_pairs (ek @ ev) ps = Some w"
    by (simp add: Append_eq [of ek])
  then obtain w' where "append_pairs [] ps = Some w'" "w = ek @ ev @ w'"
    by (subst (asm) append_pairs_prefix) auto
  then show ?thesis using ek ev that by blast
qed

lemma append_pairs_total:
  assumes "\<forall>(k, v) \<in> set ps. k \<le> maxVarInt8 \<and> v \<le> maxVarInt8"
  shows "\<exists>w. append_pairs b ps = Some (b @ w)"
  using assms
proof (induction ps arbitrary: b)
  case Nil
  then show ?case by simp
next
  case (Cons a ps)
  obtain k v where a: "a = (k, v)" by (cases a)
  have enc: "\<exists>e. quicvarint_Append c i = Some (c @ e)" if "i \<le> maxVarInt8" for c i
    using that by (simp add: quicvarint_Append_def)
  from Cons.prems a obtain ek where ek: "quicvarint_Append b k = Some (b @ ek)"
    using enc [of k b] by auto
  from Cons.prems a obtain ev where ev: "quicvarint_Append (b @ ek) v = Some ((b @ ek) @ ev)"
    using enc [of v "b @ ek"] by auto
  from Cons.prems Cons.IH [of "(b @ ek) @ ev"]
  obtain w where "append_pairs ((b @ ek) @ ev) ps = Some (((b @ ek) @ ev) @ w)" by auto
  then show ?case using a ek ev by simp
qed

lemma append_flag_pairs:
  "append_pairs b (flag_pairs f @ ps) =
   append_pairs
     (b @ (if Datagram f then [0x33, 1] else []) @ (if ExtendedConnect f then [0x8, 1] else []))
     ps"
  by (simp add: flag_pairs_def Append_const)

lemma scan_wire:
  assumes "append_pairs [] ps = Some w" and "pending b = w"
  shows "settings_scan b = (ps, None)"
  using assms
proof (induction ps arbitrary: w b)
  case Nil
  then show ?case by (subst settings_scan.simps) simp
next
  case (Cons a ps)
  obtain k v where a: "a = (k, v)" by (cases a)
  from Cons.prems(1) [unfolded a]
  obtain ek ev w' where ek: "quicvarint_Append [] k = Some ek"
    and ev: "quicvarint_Append [] v = Some ev"
    and w': "append_pairs [] ps = Some w'" and w: "w = ek @ ev @ w'"
    by (rule append_pairs_Cons)
  have ne: "ek \<noteq> []" using ek by (rule Append_Nil_facts)
  have r1: "quicvarint_Read b = (Inr k, b\<lparr>pending := ev @ w'\<rparr>)"
    using Read_Append [OF ek, of b "ev @ w'"] Cons.prems(2) w by simp
  have r2: "quicvarint_Read (b\<lparr>pending := ev @ w'\<rparr>) = (Inr v, b\<lparr>pending := w'\<rparr>)"
    using Read_Append [OF ev, of "b\<lparr>pending := ev @ w'\<rparr>" w'] by simp
  have "settings_scan (b\<lparr>pending := w'\<rparr>) = (ps, None)"
    using Cons.IH [OF w'] by simp
  then show ?case using ne r1 r2 Cons.prems(2) w a
    by (subst settings_scan.simps) simp
qed

lemma len_wire:
  assumes "append_pairs [] ps = Some w"
  shows "settings_len_loop l0 ps = Some (l0 + int (length w))"
  using assms
proof (induction ps arbitrary: w l0)
  case Nil
  then show ?case by simp
next
  case (Cons a ps)
  obtain k v where a: "a = (k, v)" by (cases a)
  from Cons.prems(1) [unfolded a]
  obtain ek ev w' where ek: "quicvarint_Append [] k = Some ek"
    and ev: "quicvarint_Append [] v = Some ev"
    and w': "append_pairs [] ps = Some w'" and w: "w = ek @ ev @ w'"
    by (rule append_pairs_Cons)
  have lk: "quicvarint_Len k = Some (int (length ek))" using ek by (rule Append_Nil_facts)
  have lv: "quicvarint_Len v = Some (int (length ev))" using ev by (rule Append_Nil_facts)
  show ?case using Cons.IH [OF w'] lk lv a w by simp
qed

lemma len_loop_sum:
  "settings_len_loop l0 ps = Some l \<Longrightarrow> l = l0 + sum_list (map pair_len ps)"
proof (induction ps arbitrary: l0)
  case Nil
  then show ?case by simp
next
  case (Cons a ps)
  obtain k v where a: "a = (k, v)" by (cases a)
  from Cons.prems obtain x y where x: "quicvarint_Len k = Some x" and y: "quicvarint_Len v = Some y"
    and r: "settings_len_loop (l0 + (x + y)) ps = Some l"
    by (auto simp: a split: Option.bind_splits)
  show ?case using Cons.IH [OF r] Len_Some [OF x] Len_Some [OF y] a
    by (simp add: pair_len_def)
qed

lemma len_loop_const:
  assumes "\<forall>(k, v) \<in> set ps. quicvarint_Len k = Some 8 \<and> quicvarint_Len v = Some 8"
  shows "settings_len_loop l0 ps = Some (l0 + 16 * int (length ps))"
  using assms by (induction ps arbitrary: l0) auto

lemma flag_pairs_len: "sum_list (map pair_len (flag_pairs f)) =
    (if Datagram f then 2 else 0) + (if ExtendedConnect f then 2 else 0)"
  by (simp add: flag_pairs_def pair_len_def varint_len_def settingDatagram_def
      settingExtendedConnect_def maxVarInt1_def)

lemma settingsFrame_len_sum:
  assumes "settingsFrame_len f order = Some l"
  shows "l = sum_list (map pair_len (flag_pairs f @ range_map (Other f) order))"
proof -
  from assms obtain l0 where l0: "settings_len_loop 0 (range_map (Other f) order) = Some l0"
    by (auto simp: settingsFrame_len_def split: Option.bind_splits)
  have "l = l0 + (if Datagram f then 2 else 0) + (if ExtendedConnect f then 2 else 0)"
    using assms l0
    by (auto simp: settingsFrame_len_def quicvarint_Len_def settingDatagram_def
        settingExtendedConnect_def maxVarInt1_def split: if_splits)
  then show ?thesis using len_loop_sum [OF l0] by (simp add: flag_pairs_len)
qed

lemma Append_decompose:
  assumes "settingsFrame_Append f [] order1 order2 = Some bs"
  obtains l el body where "settingsFrame_len f order1 = Some l"
    "quicvarint_Append [] (word_of_int l) = Some el"
    "append_pairs [] (flag_pairs f @ range_map (Other f) order2) = Some body"
    "bs = 4 # el @ body"
proof -
  have four: "quicvarint_Append [] 4 = Some [4]"
    by (simp add: quicvarint_Append_def maxVarInt1_def)
  from assms obtain l where l: "settingsFrame_len f order1 = Some l"
    by (auto simp: settingsFrame_Append_def four split: Option.bind_splits)
  from assms l obtain b2 where b2: "quicvarint_Append [4] (word_of_int l) = Some b2"
    by (auto simp: settingsFrame_Append_def four split: Option.bind_splits)
  then obtain el where el: "quicvarint_Append [] (word_of_int l) = Some el" "b2 = 4 # el"
    by (subst (asm) Append_eq) auto
  have "append_pairs b2 (flag_pairs f @ range_map (Other f) order2) = Some bs"
    using assms l b2
    by (cases "Datagram f"; cases "ExtendedConnect f")
      (simp_all add: settingsFrame_Append_def four append_flag_pairs Append_const)
  then obtain body where
    "append_pairs [] (flag_pairs f @ range_map (Other f) order2) = Some body" "bs = b2 @ body"
    by (subst (asm) append_pairs_prefix) auto
  then show ?thesis using l el that by simp
qed

lemma many_keys:
  assumes "k \<in> set (map fst many_entries)"
  shows "quicvarint_Len k = Some 8" "k \<noteq> settingExtendedConnect" "k \<noteq> settingDatagram"
    "k \<le> maxVarInt8" "map_of many_entries k = Some (2 ^ 30)"
proof -
  from assms obtain i where i: "i < 513" "k = 2 ^ 30 + word_of_nat i"
    by (auto simp: many_entries_def)
  have "unat (word_of_nat i :: uint64) = i" using i(1) by (simp add: unat_of_nat)
  then have u: "unat k = 2 ^ 30 + i"
    using i by (simp add: unat_word_ariths)
  show "quicvarint_Len k = Some 8" "k \<noteq> settingExtendedConnect" "k \<noteq> settingDatagram"
    "k \<le> maxVarInt8"
    using u i(1)
    by (auto simp: quicvarint_Len_def maxVarInt1_def maxVarInt2_def maxVarInt4_def maxVarInt8_def
        word_le_nat_alt settingDatagram_def settingExtendedConnect_def word_unat_eq_iff)
  have "map_of (map (\<lambda>i. (2 ^ 30 + word_of_nat i :: uint64, 2 ^ 30 :: uint64)) xs) k = Some (2 ^ 30)"
    if "k \<in> (\<lambda>i. 2 ^ 30 + word_of_nat i) ` set xs" for xs :: "nat list"
    using that by (induction xs) auto
  then show "map_of many_entries k = Some (2 ^ 30)"
    using assms by (simp add: many_entries_def comp_def)
qed

lemma many_order: "iteration_order (Other many_settings) (map fst many_entries)"
proof -
  have "inj_on (\<lambda>i. 2 ^ 30 + word_of_nat i :: uint64) (set [0..<513])"
  proof (rule inj_onI)
    fix i j :: nat
    assume "i \<in> set [0..<513]" "j \<in> set [0..<513]"
      and "(2 ^ 30 + word_of_nat i :: uint64) = 2 ^ 30 + word_of_nat j"
    then have "i < 513" "j < 513" "(word_of_nat i :: uint64) = word_of_nat j" by simp_all
    then have "unat (word_of_nat i :: uint64) = unat (word_of_nat j :: uint64)" by simp
    then show "i = j" using \<open>i < 513\<close> \<open>j < 513\<close> by (simp add: unat_of_nat)
  qed
  then have "distinct (map fst many_entries)"
    by (simp add: many_entries_def comp_def distinct_map)
  moreover have "set (map fst many_entries) = dom (map_of many_entries)"
    by (simp add: dom_map_of_conv_image_fst)
  ultimately show ?thesis by (simp add: iteration_order_def many_settings_def)
qed

lemma many_range: "range_map (Other many_settings) (map fst many_entries) = many_entries"
proof -
  have "range_map (Some (map_of many_entries)) (map fst many_entries) =
      map (\<lambda>k. (k, the (map_of many_entries k))) (map fst many_entries)"
    using many_order by (intro range_map_order) (simp add: many_settings_def)
  also have "\<dots> = map (\<lambda>k. (k, 2 ^ 30)) (map fst many_entries)"
    by (rule map_cong) (simp_all add: many_keys(5))
  also have "\<dots> = many_entries" by (simp add: many_entries_def comp_def)
  finally show ?thesis by (simp add: many_settings_def)
qed

lemma many_len: "settingsFrame_len many_settings (map fst many_entries) = Some 8208"
proof -
  have v: "quicvarint_Len (2 ^ 30) = Some 8"
    by (simp add: quicvarint_Len_def maxVarInt1_def maxVarInt2_def maxVarInt4_def maxVarInt8_def)
  have "\<forall>(k, v) \<in> set many_entries. quicvarint_Len k = Some 8 \<and> quicvarint_Len v = Some 8"
  proof (clarify, intro conjI)
    fix k v assume kv: "(k, v) \<in> set many_entries"
    then have "k \<in> set (map fst many_entries)" by force
    then show "quicvarint_Len k = Some 8" by (rule many_keys)
    from kv have "v = 2 ^ 30" by (auto simp: many_entries_def)
    then show "quicvarint_Len v = Some 8" using v by simp
  qed
  then have "settings_len_loop 0 many_entries = Some (0 + 16 * int (length many_entries))"
    by (rule len_loop_const)
  moreover have "length many_entries = 513" by (simp add: many_entries_def)
  ultimately show ?thesis
    by (simp add: settingsFrame_len_def many_range) (simp add: many_settings_def)
qed

lemma many_bytes: "\<exists>w. settingsFrame_Append many_settings [] (map fst many_entries)
    (map fst many_entries) = Some ([4, 0x60, 0x10] @ w)"
proof -
  have "\<forall>(k, v) \<in> set many_entries. k \<le> maxVarInt8 \<and> v \<le> maxVarInt8"
  proof (clarify, intro conjI)
    fix k v assume kv: "(k, v) \<in> set many_entries"
    then have "k \<in> set (map fst many_entries)" by force
    then show "k \<le> maxVarInt8" by (rule many_keys)
    from kv have "v = 2 ^ 30" by (auto simp: many_entries_def)
    then show "v \<le> maxVarInt8" by (simp add: maxVarInt8_def)
  qed
  from append_pairs_total [OF this, of "[4, 0x60, 0x10]"]
  obtain w where "append_pairs [4, 0x60, 0x10] many_entries = Some ([4, 0x60, 0x10] @ w)" ..
  moreover have "quicvarint_Append [4] (8208::uint64) = Some [4, 0x60, 0x10]"
    by (simp add: quicvarint_Append_def maxVarInt1_def maxVarInt2_def)
  moreover have "quicvarint_Append [] (4::uint64) = Some [4]"
    by (simp add: quicvarint_Append_def maxVarInt1_def)
  ultimately show ?thesis
    by (simp add: settingsFrame_Append_def many_len many_range) (simp add: many_settings_def)
qed

lemma scan_example_1: "settings_pairs [1, 5, 8, 1, 1, 7, 9] = [(1, 5), (8, 1), (1, 7)]"
  by (simp add: settings_pairs_def bytes_NewReader_def settings_scan.simps
      quicvarint_Read_def ReadByte_def)

section \<open>Properties of the SETTINGS codec\<close>

text \<open>
  C6. A SETTINGS frame whose declared length is strictly greater than 8192 fails with the
  oversized-settings error, and no byte of the body has been read: the reader comes back
  as it was given.
\<close>

theorem parseSettingsFrame_oversized:
  "8192 < l \<Longrightarrow> parseSettingsFrame r l = (Inl (UnexpectedSettingsSize l), r)"
  by (simp add: parseSettingsFrame_def)

theorem parseSettingsFrame_oversized_witness:
  "(8192::uint64) < 8193 \<and>
   parseSettingsFrame \<lparr>pending = [8, 1], final = EOF\<rparr> 8193 =
     (Inl (UnexpectedSettingsSize 8193), \<lparr>pending = [8, 1], final = EOF\<rparr>)"
  using parseSettingsFrame_oversized [of 8193 "\<lparr>pending = [8, 1], final = EOF\<rparr>"]
  by simp

text \<open>
  C8. A SETTINGS frame whose declared length is within the ceiling of 8192, read from a
  stream that ends cleanly before that many bytes have arrived, fails with \<open>EOF\<close>: the
  \<open>ErrUnexpectedEOF\<close> of the short read is turned into \<open>EOF\<close>, and the stream is used
  up. This holds for every declared length up to the ceiling, the ceiling included.
\<close>

theorem parseSettingsFrame_truncated:
  assumes "l \<le> 8192" and "length (pending r) < unat l" and "final r = EOF"
  shows "parseSettingsFrame r l = (Inl EOF, r\<lparr>pending := []\<rparr>)"
proof -
  have "\<not> 8192 < l" using assms(1) by simp
  then show ?thesis
    using assms(2,3) by (simp add: parseSettingsFrame_def io_ReadFull_def)
qed

theorem parseSettingsFrame_truncated_witness:
  "(8192::uint64) \<le> 8192 \<and>
   length (pending \<lparr>pending = [8, 1], final = EOF\<rparr>) < unat (8192::uint64) \<and>
   parseSettingsFrame \<lparr>pending = [8, 1], final = EOF\<rparr> 8192 =
     (Inl EOF, \<lparr>pending = [], final = EOF\<rparr>)"
  using parseSettingsFrame_truncated [of 8192 "\<lparr>pending = [8, 1], final = EOF\<rparr>"]
  by simp

text \<open>
  C3, as stated, fails: in the body \<open>08 05 08 05\<close> the key \<open>0x8\<close> occurs twice, and
  parsing fails with the invalid-value error of the first pair, which is checked before
  the second pair is read.
\<close>

theorem parseSettingsFrame_duplicate_counterexample:
  "settings_pairs [8, 5, 8, 5] = [(8, 5), (8, 5)] \<and>
   parseSettingsFrame \<lparr>pending = [8, 5, 8, 5], final = EOF\<rparr> 4 =
     (Inl (InvalidExtendedConnect 5), \<lparr>pending = [], final = EOF\<rparr>)"
  by (simp add: settings_pairs_def bytes_NewReader_def settings_scan.simps
      parseSettingsFrame_def io_ReadFull_def parseSettingsFrame_loop.simps
      quicvarint_Read_def ReadByte_def settingExtendedConnect_def)

text \<open>
  C3, amended. Take a SETTINGS body of the declared length \<open>l \<le> 8192\<close> and the first pair
  \<open>(k, v)\<close> in it whose key has occurred before (the pairs \<open>pre\<close> before it have
  distinct keys, \<open>k\<close> among them). If every pair of \<open>pre\<close> with key \<open>0x8\<close> or \<open>0x33\<close> has
  value 0 or 1, parsing fails with the duplicate-setting error for \<open>k\<close>, whatever the
  values the two occurrences of \<open>k\<close> carry and whatever follows.
\<close>

theorem parseSettingsFrame_duplicate:
  assumes "l \<le> 8192" and "pending r = body @ rest" and "unat l = length body"
    and "settings_pairs body = pre @ (k, v) # post"
    and "k \<in> fst ` set pre"
    and "distinct (map fst pre)"
    and "\<forall>(x, y) \<in> set pre. x = settingDatagram \<or> x = settingExtendedConnect \<longrightarrow> y = 0 \<or> y = 1"
  shows "parseSettingsFrame r l = (Inl (DuplicateSetting k), r\<lparr>pending := rest\<rparr>)"
proof -
  obtain tail where sc: "settings_scan (bytes_NewReader body) = (pre @ (k, v) # post, tail)"
    using assms(4) by (cases "settings_scan (bytes_NewReader body)") (simp add: settings_pairs_def)
  have "settings_fold \<lparr>Datagram = False, ExtendedConnect = False, Other = None\<rparr> False False
          (pre @ (k, v) # post) = Inl (DuplicateSetting k)"
    using assms(5,6,7)
    by (intro fold_duplicate [where seen = "{}"]) (auto simp: other_entries_def)
  then show ?thesis
    using parseSettingsFrame_fold [OF assms(1,2,3)] sc by simp
qed

theorem parseSettingsFrame_duplicate_witness:
  "settings_pairs [1, 5, 8, 1, 1, 7, 9] = [(1, 5), (8, 1)] @ (1, 7) # [] \<and>
   parseSettingsFrame \<lparr>pending = [1, 5, 8, 1, 1, 7, 9] @ [4, 0], final = EOF\<rparr> 7 =
     (Inl (DuplicateSetting 1), \<lparr>pending = [4, 0], final = EOF\<rparr>)"
  using scan_example_1
    parseSettingsFrame_duplicate [of 7 "\<lparr>pending = [1, 5, 8, 1, 1, 7, 9] @ [4, 0], final = EOF\<rparr>"
      "[1, 5, 8, 1, 1, 7, 9]" "[4, 0]" "[(1, 5), (8, 1)]" 1 7 "[]"]
  by (simp add: settingDatagram_def settingExtendedConnect_def)

text \<open>
  C10. When parsing a SETTINGS frame succeeds: if the body holds no key but \<open>0x8\<close> and
  \<open>0x33\<close>, the \<^verbatim>\<open>Other\<close> map of the result is nil; a map that is present is never empty
  and never holds \<open>0x8\<close> or \<open>0x33\<close>. And \<^verbatim>\<open>Append\<close> gives the same bytes for a nil and for
  an empty \<^verbatim>\<open>Other\<close> map.
\<close>

theorem parseSettingsFrame_other_nil:
  assumes "parseSettingsFrame r l = (Inr f, r')"
  shows "(fst ` set (settings_pairs (take (unat l) (pending r)))
            \<subseteq> {settingExtendedConnect, settingDatagram} \<longrightarrow> Other f = None) \<and>
         (\<forall>m. Other f = Some m \<longrightarrow>
            m \<noteq> Map.empty \<and> m settingExtendedConnect = None \<and> m settingDatagram = None) \<and>
         settingsFrame_Append (g\<lparr>Other := None\<rparr>) b order1 order2 =
           settingsFrame_Append (g\<lparr>Other := Some Map.empty\<rparr>) b order1 order2"
proof -
  let ?body = "take (unat l) (pending r)"
  let ?zero = "\<lparr>Datagram = False, ExtendedConnect = False, Other = None\<rparr>"
  have l: "l \<le> 8192" using assms by (auto simp: parseSettingsFrame_def split: if_splits)
  have "unat l \<le> length (pending r)"
    using assms l
    by (auto simp: parseSettingsFrame_def io_ReadFull_def split: if_splits)
  then have b: "pending r = ?body @ drop (unat l) (pending r)" "unat l = length ?body"
    by simp_all
  obtain ps tail where sc: "settings_scan (bytes_NewReader ?body) = (ps, tail)"
    by (cases "settings_scan (bytes_NewReader ?body)")
  then have ps: "settings_pairs ?body = ps" by (simp add: settings_pairs_def)
  have run: "settings_fold ?zero False False ps = Inr f"
  proof (cases "settings_fold ?zero False False ps")
    case (Inl e)
    then show ?thesis using parseSettingsFrame_fold [OF l b] assms sc by simp
  next
    case (Inr f')
    then show ?thesis using parseSettingsFrame_fold [OF l b] assms sc
      by (cases tail) simp_all
  qed
  have z: "\<forall>m. Other ?zero = Some m \<longrightarrow>
           m \<noteq> Map.empty \<and> m settingExtendedConnect = None \<and> m settingDatagram = None"
    by simp
  from fold_other_ok [OF run z]
  have ok: "\<forall>m. Other f = Some m \<longrightarrow>
           m \<noteq> Map.empty \<and> m settingExtendedConnect = None \<and> m settingDatagram = None"
    and sub: "dom (other_entries f) \<subseteq> fst ` set ps"
    by (simp_all add: other_entries_def)
  have nil: "Other f = None"
    if only: "fst ` set ps \<subseteq> {settingExtendedConnect, settingDatagram}"
  proof (cases "Other f")
    case None
    then show ?thesis .
  next
    case (Some m)
    then have d: "dom m \<subseteq> {settingExtendedConnect, settingDatagram}"
      using sub only by (simp add: other_entries_def)
    have n: "settingExtendedConnect \<notin> dom m" "settingDatagram \<notin> dom m" "m \<noteq> Map.empty"
      using ok Some by auto
    from d n(1,2) have "dom m = {}" by blast
    then have "m = Map.empty" by simp
    then show ?thesis using n(3) by simp
  qed
  have enc: "settingsFrame_Append (g\<lparr>Other := None\<rparr>) b order1 order2 =
           settingsFrame_Append (g\<lparr>Other := Some Map.empty\<rparr>) b order1 order2"
    by (simp add: settingsFrame_Append_def settingsFrame_len_def range_map_no_entries)
  show ?thesis using nil ok enc by (simp only: ps) blast
qed

theorem parseSettingsFrame_other_nil_witness:
  "parseSettingsFrame \<lparr>pending = [8, 1, 0x33, 0], final = EOF\<rparr> 4 =
     (Inr \<lparr>Datagram = False, ExtendedConnect = True, Other = None\<rparr>,
      \<lparr>pending = [], final = EOF\<rparr>) \<and>
   settings_pairs (take (unat (4::uint64)) [8, 1, 0x33, 0]) = [(8, 1), (0x33, 0)] \<and>
   settingsFrame_Append \<lparr>Datagram = True, ExtendedConnect = False, Other = None\<rparr> [] [] [] =
     Some [4, 2, 0x33, 1] \<and>
   settingsFrame_Append \<lparr>Datagram = True, ExtendedConnect = False, Other = Some Map.empty\<rparr>
     [] [] [] = Some [4, 2, 0x33, 1]"
proof -
  have p: "parseSettingsFrame \<lparr>pending = [8, 1, 0x33, 0], final = EOF\<rparr> 4 =
     (Inr \<lparr>Datagram = False, ExtendedConnect = True, Other = None\<rparr>,
      \<lparr>pending = [], final = EOF\<rparr>)"
    by (simp add: parseSettingsFrame_def io_ReadFull_def bytes_NewReader_def
        parseSettingsFrame_loop.simps quicvarint_Read_def ReadByte_def
        settingExtendedConnect_def settingDatagram_def)
  have s: "settings_pairs (take (unat (4::uint64)) [8, 1, 0x33, 0]) = [(8, 1), (0x33, 0)]"
    by (simp add: settings_pairs_def bytes_NewReader_def settings_scan.simps
        quicvarint_Read_def ReadByte_def)
  have e: "settingsFrame_Append \<lparr>Datagram = True, ExtendedConnect = False, Other = None\<rparr> [] [] [] =
     Some [4, 2, 0x33, 1]"
    by (simp add: settingsFrame_Append_def settingsFrame_len_def range_map_def
        quicvarint_Append_def quicvarint_Len_def maxVarInt1_def settingDatagram_def)
  show ?thesis
    using p s e
      parseSettingsFrame_other_nil [OF p,
        of "\<lparr>Datagram = True, ExtendedConnect = False, Other = None\<rparr>" "[]" "[]" "[]"]
    by simp
qed

text \<open>
  C4, as stated, fails: the encoding of \<open>many_settings\<close>, whose \<^verbatim>\<open>Other\<close> map holds neither
  \<open>0x8\<close> nor \<open>0x33\<close>, has a body of 8208 bytes, and parsing it fails with the
  oversized-settings error.
\<close>

theorem settingsFrame_roundtrip_counterexample:
  "iteration_order (Other many_settings) (map fst many_entries) \<and>
   other_entries many_settings settingExtendedConnect = None \<and>
   other_entries many_settings settingDatagram = None \<and>
   settingsFrame_Append many_settings [] (map fst many_entries) (map fst many_entries) =
     Some many_settings_bytes \<and>
   fst (ParseNext 0x105 (fresh_parser many_settings_bytes None ())) =
     Inl (UnexpectedSettingsSize 8208)"
proof -
  obtain w where w: "settingsFrame_Append many_settings [] (map fst many_entries)
    (map fst many_entries) = Some ([4, 0x60, 0x10] @ w)"
    using many_bytes ..
  then have b: "many_settings_bytes = [4, 0x60, 0x10] @ w" by (simp add: many_settings_bytes_def)
  have "fst (ParseNext_pass 0x105 (fresh_parser many_settings_bytes None ())) =
     Return (Inl (UnexpectedSettingsSize 8208))"
    by (simp add: b ParseNext_pass_def fresh_parser_def quicvarint_Read_def ReadByte_def
        unknown_type_hook_def dispatch_def parseSettingsFrame_def)
  then have p: "fst (ParseNext 0x105 (fresh_parser many_settings_bytes None ())) =
     Inl (UnexpectedSettingsSize 8208)"
    by (rule ParseNext_Return_fst)
  have n: "other_entries many_settings settingExtendedConnect = None"
    "other_entries many_settings settingDatagram = None"
    using many_keys(2) [of settingExtendedConnect] many_keys(3) [of settingDatagram]
    by (auto simp: other_entries_def many_settings_def map_of_eq_None_iff)
  show ?thesis using many_order n w b p by simp
qed

text \<open>
  Two more ways in which encoding and parsing do not give the Settings value back: a
  value of \<open>2^62\<close> cannot be written as a variable-length integer, so that \<^verbatim>\<open>Append\<close>
  panics; and an \<^verbatim>\<open>Other\<close> map that is present but empty is parsed back as nil.
\<close>

lemma settingsFrame_Append_panic_example:
  "settingsFrame_Append
     \<lparr>Datagram = False, ExtendedConnect = False, Other = Some [1 \<mapsto> 2 ^ 62]\<rparr> [] [1] [1] = None"
  by (simp add: settingsFrame_Append_def settingsFrame_len_def range_map_def
      List.map_filter_def quicvarint_Append_def quicvarint_Len_def
      maxVarInt1_def maxVarInt2_def maxVarInt4_def maxVarInt8_def)

lemma settingsFrame_empty_other_example:
  "settingsFrame_Append
     \<lparr>Datagram = False, ExtendedConnect = False, Other = Some Map.empty\<rparr> [] [] [] =
     Some [4, 0] \<and>
   ParseNext 0x105 (fresh_parser [4, 0] None ()) =
     (Inr (Settings \<lparr>Datagram = False, ExtendedConnect = False, Other = None\<rparr>),
      fresh_parser [] None ())"
proof -
  have "ParseNext_pass 0x105 (fresh_parser [4, 0] None ()) =
     (Return (Inr (Settings \<lparr>Datagram = False, ExtendedConnect = False, Other = None\<rparr>)),
      fresh_parser [] None ())"
    by (simp add: ParseNext_pass_def fresh_parser_def quicvarint_Read_def ReadByte_def
        unknown_type_hook_def dispatch_def parseSettingsFrame_def io_ReadFull_def
        bytes_NewReader_def parseSettingsFrame_loop.simps)
  then have "ParseNext 0x105 (fresh_parser [4, 0] None ()) =
     (Inr (Settings \<lparr>Datagram = False, ExtendedConnect = False, Other = None\<rparr>),
      fresh_parser [] None ())"
    by (rule ParseNext_Return)
  then show ?thesis
    by (simp add: settingsFrame_Append_def settingsFrame_len_def range_map_def
        List.map_filter_def quicvarint_Append_def maxVarInt1_def)
qed

text \<open>
  C4, amended. Let \<open>f\<close> be a Settings value whose \<^verbatim>\<open>Other\<close> map holds neither \<open>0x8\<close> nor
  \<open>0x33\<close>, whose encoding succeeds (no key or value is too large for a variable-length
  integer) and whose encoded body is at most 8192 bytes long. Then, whatever the orders in
  which the two \<^verbatim>\<open>range\<close> loops visit the map, parsing the encoding (\<^verbatim>\<open>ParseNext\<close> on the
  bytes, or \<^verbatim>\<open>parseSettingsFrame\<close> on the body with the encoded body length as the declared
  length) consumes exactly the encoding and yields the flags and the \<^verbatim>\<open>Other\<close> entries of
  \<open>f\<close>; an \<^verbatim>\<open>Other\<close> map without entries comes back nil.
\<close>

theorem settingsFrame_roundtrip:
  assumes o1: "iteration_order (Other f) order1"
    and o2: "iteration_order (Other f) order2"
    and nk: "settingExtendedConnect \<notin> dom (other_entries f)"
            "settingDatagram \<notin> dom (other_entries f)"
    and enc: "settingsFrame_Append f [] order1 order2 = Some bs"
    and len: "settingsFrame_len f order1 = Some l" "l \<le> 8192"
    and st: "pending (stream p) = bs @ rest"
  shows "ParseNext c p =
      (Inr (Settings (f\<lparr>Other := (if other_entries f = Map.empty then None
                                     else Some (other_entries f))\<rparr>)),
       p\<lparr>stream := (stream p)\<lparr>pending := rest\<rparr>\<rparr>) \<and>
    (\<exists>hdr body. bs = hdr @ body \<and> int (length body) = l \<and>
       parseSettingsFrame ((stream p)\<lparr>pending := body @ rest\<rparr>) (word_of_int l) =
         (Inr (f\<lparr>Other := (if other_entries f = Map.empty then None
                               else Some (other_entries f))\<rparr>),
          (stream p)\<lparr>pending := rest\<rparr>))"
proof -
  define f' where f': "f' = f\<lparr>Other := (if other_entries f = Map.empty then None
                                 else Some (other_entries f))\<rparr>"
  let ?ps1 = "range_map (Other f) order1"
  let ?ps2 = "range_map (Other f) order2"
  let ?wl = "word_of_int l :: uint64"
  from Append_decompose [OF enc] len(1)
  obtain el body where el: "quicvarint_Append [] ?wl = Some el"
    and body: "append_pairs [] (flag_pairs f @ ?ps2) = Some body"
    and bs: "bs = 4 # el @ body"
    by (metis option.inject)
  \<comment> \<open>the declared length is the length of the body\<close>
  have "int (length body) = sum_list (map pair_len (flag_pairs f @ ?ps2))"
    using len_loop_sum [OF len_wire [OF body, of 0]] by simp
  also have "\<dots> = sum_list (map pair_len (flag_pairs f @ ?ps1))"
    using order_sum [OF o2 o1, of pair_len] by simp
  also have "\<dots> = l" using settingsFrame_len_sum [OF len(1)] by simp
  finally have lb: "int (length body) = l" .
  then have wl: "?wl = of_nat (length body)" by (metis of_int_of_nat_eq)
  have "length body \<le> 8192" using lb len(2) by linarith
  then have ul: "unat ?wl = length body" and le: "?wl \<le> 8192"
    by (simp_all add: wl unat_of_nat word_le_nat_alt)
  \<comment> \<open>the pairs of the body and what the loop makes of them\<close>
  have sc: "settings_scan (bytes_NewReader body) = (flag_pairs f @ ?ps2, None)"
    using body by (rule scan_wire) (simp add: bytes_NewReader_def)
  let ?f0 = "\<lparr>Datagram = Datagram f, ExtendedConnect = ExtendedConnect f, Other = None\<rparr>"
  have fresh: "distinct (map fst ?ps2) \<and>
      (\<forall>k \<in> fst ` set ?ps2.
         k \<noteq> settingExtendedConnect \<and> k \<noteq> settingDatagram \<and> k \<notin> dom (other_entries ?f0))"
  proof (cases "Other f")
    case None
    then show ?thesis by (simp add: range_map_def)
  next
    case (Some m)
    have keys: "map fst ?ps2 = order2" using o2 Some by (simp add: range_map_keys)
    have "set order2 = dom m" "distinct order2" using o2 Some by (simp_all add: iteration_order_def)
    moreover have "fst ` set ?ps2 = set order2" using keys by (metis set_map)
    ultimately show ?thesis using nk Some keys by (auto simp: other_entries_def)
  qed
  have res: "(?f0\<lparr>Other := (if ?ps2 = [] then Other ?f0
                          else Some (other_entries ?f0 ++ map_of ?ps2))\<rparr>) = f'"
  proof (cases "Other f")
    case None
    then show ?thesis by (simp add: f' range_map_def other_entries_def)
  next
    case (Some m)
    have m: "map_of ?ps2 = m" using o2 Some by (simp add: map_of_range_map)
    have "map fst ?ps2 = order2" using o2 Some by (simp add: range_map_keys)
    then have "?ps2 = [] \<longleftrightarrow> order2 = []" by (metis map_is_Nil_conv)
    also have "\<dots> \<longleftrightarrow> set order2 = {}" by simp
    also have "\<dots> \<longleftrightarrow> dom m = {}" using o2 Some by (simp add: iteration_order_def)
    also have "\<dots> \<longleftrightarrow> m = Map.empty" by (rule dom_eq_empty_conv)
    finally have "?ps2 = [] \<longleftrightarrow> m = Map.empty" .
    then show ?thesis using m Some by (simp add: f' other_entries_def)
  qed
  have fold: "settings_fold \<lparr>Datagram = False, ExtendedConnect = False, Other = None\<rparr>
      False False (flag_pairs f @ ?ps2) = Inr f'"
  proof -
    have "settings_fold ?f0 (Datagram f) (ExtendedConnect f) ?ps2 =
      Inr (?f0\<lparr>Other := (if ?ps2 = [] then Other ?f0
                          else Some (other_entries ?f0 ++ map_of ?ps2))\<rparr>)"
      using fresh by (intro fold_fresh) blast+
    then show ?thesis by (simp only: fold_flags res)
  qed
  have parse: "parseSettingsFrame r ?wl = (Inr f', r\<lparr>pending := rest\<rparr>)"
    if "pending r = body @ rest" for r
    using parseSettingsFrame_fold [OF le that ul] sc fold by simp
  \<comment> \<open>the dispatcher on the whole encoding\<close>
  let ?r = "stream p"
  have four: "quicvarint_Append [] 4 = Some [4]"
    by (simp add: quicvarint_Append_def maxVarInt1_def)
  have r1: "quicvarint_Read ?r = (Inr 4, ?r\<lparr>pending := el @ body @ rest\<rparr>)"
    using Read_Append [OF four, of ?r "el @ body @ rest"] st bs by simp
  have r2: "quicvarint_Read (?r\<lparr>pending := el @ body @ rest\<rparr>) =
      (Inr ?wl, ?r\<lparr>pending := body @ rest\<rparr>)"
    using Read_Append [OF el, of "?r\<lparr>pending := el @ body @ rest\<rparr>" "body @ rest"] by simp
  have hook: "unknown_type_hook q 4 = (None, q)" for q :: "'a frameParser"
    by (simp add: unknown_type_hook_def split: option.splits)
  have "ParseNext_pass c p =
      (Return (Inr (Settings f')), p\<lparr>stream := ?r\<lparr>pending := rest\<rparr>\<rparr>)"
    using r1 r2 hook parse [of "?r\<lparr>pending := body @ rest\<rparr>"]
    by (simp add: ParseNext_pass_def dispatch_def)
  then have "ParseNext c p = (Inr (Settings f'), p\<lparr>stream := ?r\<lparr>pending := rest\<rparr>\<rparr>)"
    by (rule ParseNext_Return)
  moreover have "bs = (4 # el) @ body" using bs by simp
  ultimately show ?thesis
    unfolding f' [symmetric]
    using lb parse [of "?r\<lparr>pending := body @ rest\<rparr>"]
    by (intro conjI exI [of _ "4 # el"] exI [of _ body]) simp_all
qed

theorem settingsFrame_roundtrip_witness:
  "iteration_order (Other \<lparr>Datagram = True, ExtendedConnect = True, Other = Some [1 \<mapsto> 2]\<rparr>) [1] \<and>
   settingsFrame_Append \<lparr>Datagram = True, ExtendedConnect = True, Other = Some [1 \<mapsto> 2]\<rparr>
     [] [1] [1] = Some [4, 6, 0x33, 1, 8, 1, 1, 2] \<and>
   settingsFrame_len \<lparr>Datagram = True, ExtendedConnect = True, Other = Some [1 \<mapsto> 2]\<rparr> [1] =
     Some 6 \<and>
   ParseNext 0x105 (fresh_parser ([4, 6, 0x33, 1, 8, 1, 1, 2] @ [7, 1, 5]) None ()) =
     (Inr (Settings \<lparr>Datagram = True, ExtendedConnect = True, Other = Some [1 \<mapsto> 2]\<rparr>),
      fresh_parser [7, 1, 5] None ())"
proof -
  let ?f = "\<lparr>Datagram = True, ExtendedConnect = True, Other = Some [1 \<mapsto> (2::uint64)]\<rparr>"
  have o: "iteration_order (Other ?f) [1]" by (simp add: iteration_order_def)
  have l: "settingsFrame_len ?f [1] = Some 6"
    by (simp add: settingsFrame_len_def range_map_def List.map_filter_def quicvarint_Len_def
        maxVarInt1_def settingDatagram_def settingExtendedConnect_def)
  have e: "settingsFrame_Append ?f [] [1] [1] = Some [4, 6, 0x33, 1, 8, 1, 1, 2]"
    by (simp add: settingsFrame_Append_def l range_map_def List.map_filter_def
        quicvarint_Append_def maxVarInt1_def settingDatagram_def settingExtendedConnect_def)
  have n: "settingExtendedConnect \<notin> dom (other_entries ?f)"
    "settingDatagram \<notin> dom (other_entries ?f)"
    by (simp_all add: other_entries_def settingDatagram_def settingExtendedConnect_def)
  have m: "[1 \<mapsto> (2::uint64)] \<noteq> (Map.empty :: uint64 \<rightharpoonup> uint64)" by simp
  show ?thesis
    using o l e m
      settingsFrame_roundtrip [OF o o n e l, of
        "fresh_parser ([4, 6, 0x33, 1, 8, 1, 1, 2] @ [7, 1, 5]) None ()" "[7, 1, 5]" "0x105"]
    by (simp add: fresh_parser_def other_entries_def)
qed

section \<open>Properties of the GOAWAY codec\<close>

text \<open>
  C5. Parsing a GOAWAY frame reads one variable-length integer as the stream identifier.
  When that read succeeds, the number of bytes it consumed is compared with the declared
  length: the inconsistent-length error is returned exactly when the two differ, and the
  frame with the identifier otherwise.
\<close>

theorem parseGoAwayFrame_length_check:
  assumes "quicvarint_Read r = (Inr id', r1)"
  shows "parseGoAwayFrame r l =
    (if length (pending r) - length (pending r1) = unat l
     then Inr \<lparr>StreamID = id'\<rparr> else Inl GoAwayInconsistentLength, r1)"
proof -
  obtain enc where "pending r = enc @ pending r1" "length enc \<in> {1, 2, 4, 8}"
    using Read_Inr_shape [OF assms] by blast
  then have "length (pending r) - length (pending r1) \<le> 8" by auto
  then show ?thesis
    using assms small_sint_unat [of "length (pending r) - length (pending r1)" l]
    by (simp add: parseGoAwayFrame_def cbr_Read_def)
qed

theorem parseGoAwayFrame_length_check_witness:
  "quicvarint_Read \<lparr>pending = [5, 9], final = EOF\<rparr> = (Inr 5, \<lparr>pending = [9], final = EOF\<rparr>) \<and>
   parseGoAwayFrame \<lparr>pending = [5, 9], final = EOF\<rparr> 1 =
     (Inr \<lparr>StreamID = 5\<rparr>, \<lparr>pending = [9], final = EOF\<rparr>) \<and>
   parseGoAwayFrame \<lparr>pending = [5, 9], final = EOF\<rparr> 2 =
     (Inl GoAwayInconsistentLength, \<lparr>pending = [9], final = EOF\<rparr>)"
proof -
  have rd: "quicvarint_Read \<lparr>pending = [5, 9], final = EOF\<rparr> =
      (Inr 5, \<lparr>pending = [9], final = EOF\<rparr>)"
    by (simp add: quicvarint_Read_def ReadByte_def)
  show ?thesis
    using rd parseGoAwayFrame_length_check [OF rd, of 1]
      parseGoAwayFrame_length_check [OF rd, of 2]
    by simp
qed

section \<open>Properties of the frame dispatcher\<close>

text \<open>
  C1. A frame of type \<open>0x3\<close>, \<open>0x5\<close>, \<open>0xd\<close>, or of a type above \<open>0xd\<close> that no handler
  claims (none is registered, or the registered one declines without error), whose body
  is on the stream, is skipped: \<^verbatim>\<open>ParseNext\<close> drops exactly the declared number of bytes
  after the length field and carries on as \<^verbatim>\<open>ParseNext\<close> on what follows, so the skipped
  frame is never a result. A frame that \<^verbatim>\<open>ParseNext\<close> returns is a \<open>Data\<close>, \<open>Headers\<close>,
  \<open>Settings\<close> or \<open>GoAway\<close> frame.
\<close>

theorem ParseNext_skips_frame:
  assumes "quicvarint_Read (stream p) = (Inr t, r1)"
    and "t = 0x3 \<or> t = 0x5 \<or> t = 0xd \<or> 0xd < t"
    and "\<And>h. unknownFrameHandler p = Some h \<Longrightarrow> 0xd < t \<Longrightarrow>
           fst (h (handler_state p) t None) = (False, None)"
    and "quicvarint_Read r1 = (Inr l, r2)"
    and "unat l \<le> length (pending r2)"
  shows "ParseNext c p =
    ParseNext c
      ((snd (unknown_type_hook (p\<lparr>stream := r1\<rparr>) t))
         \<lparr>stream := r2\<lparr>pending := drop (unat l) (pending r2)\<rparr>\<rparr>) \<and>
    (\<forall>f. fst (ParseNext c p) = Inr f \<longrightarrow>
       (\<exists>n. f = Data n) \<or> (\<exists>n. f = Headers n) \<or> (\<exists>s. f = Settings s) \<or> (\<exists>g. f = GoAway g))"
proof -
  have kinds: "(\<exists>n. f = Data n) \<or> (\<exists>n. f = Headers n) \<or> (\<exists>s. f = Settings s) \<or> (\<exists>g. f = GoAway g)"
    for f :: frame
    by (cases f) simp_all
  have "fst (unknown_type_hook (p\<lparr>stream := r1\<rparr>) t) = None"
  proof (cases "unknownFrameHandler p")
    case None
    then show ?thesis by (simp add: unknown_type_hook_def)
  next
    case (Some h)
    show ?thesis
    proof (cases "0xd < t")
      case True
      then have "fst (h (handler_state p) t None) = (False, None)" using assms(3) Some by simp
      then show ?thesis using Some True
        by (cases "h (handler_state p) t None")
          (simp add: unknown_type_hook_def call_handler_def)
    next
      case False
      then show ?thesis using Some by (simp add: unknown_type_hook_def)
    qed
  qed
  then obtain p1 where hook: "unknown_type_hook (p\<lparr>stream := r1\<rparr>) t = (None, p1)"
    by (cases "unknown_type_hook (p\<lparr>stream := r1\<rparr>) t") simp
  have s1: "stream p1 = r1" using unknown_type_hook_stream [OF hook] by simp
  have "l \<le> maxVarInt8" using Read_Inr_bound [OF assms(4)] .
  then have "unat l < 2 ^ 63" by (simp add: maxVarInt8_def word_le_nat_alt)
  then have sl: "sint l = int (unat l)" by (rule sint_unat)
  have skip: "skip_frame (p1\<lparr>stream := r2\<rparr>) l =
      (Continue, p1\<lparr>stream := r2\<lparr>pending := drop (unat l) (pending r2)\<rparr>\<rparr>)"
  proof (cases "l = 0")
    case True
    then show ?thesis by (simp add: skip_frame_def io_CopyN_Discard_def)
  next
    case False
    then show ?thesis using assms(5)
      by (simp add: skip_frame_def io_CopyN_Discard_def sl unsigned_eq_0_iff)
  qed
  have "t \<noteq> 0x0" "t \<noteq> 0x1" "t \<noteq> 0x4" "t \<noteq> 0x7" "t \<noteq> 0x2" "t \<noteq> 0x6" "t \<noteq> 0x8" "t \<noteq> 0x9"
    using assms(2) by auto
  then have "dispatch c (p1\<lparr>stream := r2\<rparr>) t l = skip_frame (p1\<lparr>stream := r2\<rparr>) l"
    by (simp add: dispatch_def)
  then have "ParseNext_pass c p =
      (Continue, p1\<lparr>stream := r2\<lparr>pending := drop (unat l) (pending r2)\<rparr>\<rparr>)"
    using assms(1,4) hook s1 skip by (simp add: ParseNext_pass_def)
  then show ?thesis using hook kinds by (simp add: ParseNext_Continue)
qed

theorem ParseNext_skips_frame_witness:
  "quicvarint_Read (stream
     (fresh_parser [0x20, 2, 1, 1, 7, 1, 5] (Some (\<lambda>s t e. ((False, None), t # s))) [])) =
     (Inr 0x20, \<lparr>pending = [2, 1, 1, 7, 1, 5], final = EOF\<rparr>) \<and>
   quicvarint_Read \<lparr>pending = [2, 1, 1, 7, 1, 5], final = EOF\<rparr> =
     (Inr 2, \<lparr>pending = [1, 1, 7, 1, 5], final = EOF\<rparr>) \<and>
   ParseNext 0x105
     (fresh_parser [0x20, 2, 1, 1, 7, 1, 5] (Some (\<lambda>s t e. ((False, None), t # s))) []) =
   ParseNext 0x105
     \<lparr>stream = \<lparr>pending = [7, 1, 5], final = EOF\<rparr>, closeConn_calls = [],
      unknownFrameHandler = Some (\<lambda>s t e. ((False, None), t # s)),
      handler_state = [0x20], handler_calls = [(0x20, None)]\<rparr> \<and>
   ParseNext 0x105
     \<lparr>stream = \<lparr>pending = [7, 1, 5], final = EOF\<rparr>, closeConn_calls = [],
      unknownFrameHandler = Some (\<lambda>s t e. ((False, None), t # s)),
      handler_state = [0x20], handler_calls = [(0x20, None)]\<rparr> =
     (Inr (GoAway \<lparr>StreamID = 5\<rparr>),
      \<lparr>stream = \<lparr>pending = [], final = EOF\<rparr>, closeConn_calls = [],
       unknownFrameHandler = Some (\<lambda>s t e. ((False, None), t # s)),
       handler_state = [0x20], handler_calls = [(0x20, None)]\<rparr>)"
proof -
  let ?h = "\<lambda>(s::FrameType list) (t::FrameType) (e::error option). ((False, None :: error option), t # s)"
  let ?p = "fresh_parser [0x20, 2, 1, 1, 7, 1, 5] (Some ?h) []"
  have r1: "quicvarint_Read (stream ?p) = (Inr 0x20, \<lparr>pending = [2, 1, 1, 7, 1, 5], final = EOF\<rparr>)"
    by (simp add: fresh_parser_def quicvarint_Read_def ReadByte_def)
  have r2: "quicvarint_Read \<lparr>pending = [2, 1, 1, 7, 1, 5], final = EOF\<rparr> =
     (Inr 2, \<lparr>pending = [1, 1, 7, 1, 5], final = EOF\<rparr>)"
    by (simp add: quicvarint_Read_def ReadByte_def)
  have skip: "ParseNext 0x105 ?p =
    ParseNext 0x105
     \<lparr>stream = \<lparr>pending = [7, 1, 5], final = EOF\<rparr>, closeConn_calls = [],
      unknownFrameHandler = Some ?h, handler_state = [0x20], handler_calls = [(0x20, None)]\<rparr>"
    using ParseNext_skips_frame [OF r1 _ _ r2, of "0x105"]
    by (simp add: fresh_parser_def unknown_type_hook_def call_handler_def)
  have "ParseNext_pass 0x105
     \<lparr>stream = \<lparr>pending = [7, 1, 5], final = EOF\<rparr>, closeConn_calls = [],
      unknownFrameHandler = Some ?h, handler_state = [0x20], handler_calls = [(0x20, None)]\<rparr> =
     (Return (Inr (GoAway \<lparr>StreamID = 5\<rparr>)),
      \<lparr>stream = \<lparr>pending = [], final = EOF\<rparr>, closeConn_calls = [],
       unknownFrameHandler = Some ?h, handler_state = [0x20], handler_calls = [(0x20, None)]\<rparr>)"
    by (simp add: ParseNext_pass_def unknown_type_hook_def dispatch_def parseGoAwayFrame_def
        cbr_Read_def quicvarint_Read_def ReadByte_def)
  then show ?thesis using r1 r2 skip by (simp add: ParseNext_Return)
qed

text \<open>
  C2. For a frame of type \<open>0x2\<close>, \<open>0x6\<close>, \<open>0x8\<close> or \<open>0x9\<close> whose length field can be
  read, \<^verbatim>\<open>ParseNext\<close> calls \<^verbatim>\<open>closeConn\<close> once, with the frame-unexpected code and the empty
  reason, and returns the reserved-type error. The stream stays where the length field
  ended: no byte of the body is read or skipped. The handler is not consulted.
\<close>

theorem ParseNext_forbidden_type:
  assumes "quicvarint_Read (stream p) = (Inr t, r1)"
    and "t = 0x2 \<or> t = 0x6 \<or> t = 0x8 \<or> t = 0x9"
    and "quicvarint_Read r1 = (Inr l, r2)"
  shows "ParseNext c p =
    (Inl (ReservedFrameType t),
     p\<lparr>stream := r2, closeConn_calls := closeConn_calls p @ [(c, [])]\<rparr>)"
proof -
  have hook: "unknown_type_hook (p\<lparr>stream := r1\<rparr>) t = (None, p\<lparr>stream := r1\<rparr>)"
    using assms(2) by (auto simp: unknown_type_hook_def split: option.splits)
  have "dispatch c (p\<lparr>stream := r2\<rparr>) t l =
      (Return (Inl (ReservedFrameType t)),
       p\<lparr>stream := r2, closeConn_calls := closeConn_calls p @ [(c, [])]\<rparr>)"
    using assms(2) by (auto simp: dispatch_def)
  then have "ParseNext_pass c p =
      (Return (Inl (ReservedFrameType t)),
       p\<lparr>stream := r2, closeConn_calls := closeConn_calls p @ [(c, [])]\<rparr>)"
    using assms(1,3) hook by (simp add: ParseNext_pass_def)
  then show ?thesis by (subst ParseNext.simps) simp
qed

theorem ParseNext_forbidden_type_witness:
  "quicvarint_Read (stream (fresh_parser [6, 2, 8, 1] None ())) =
     (Inr 6, \<lparr>pending = [2, 8, 1], final = EOF\<rparr>) \<and>
   quicvarint_Read \<lparr>pending = [2, 8, 1], final = EOF\<rparr> =
     (Inr 2, \<lparr>pending = [8, 1], final = EOF\<rparr>) \<and>
   ParseNext 0x105 (fresh_parser [6, 2, 8, 1] None ()) =
     (Inl (ReservedFrameType 6),
      \<lparr>stream = \<lparr>pending = [8, 1], final = EOF\<rparr>, closeConn_calls = [(0x105, [])],
       unknownFrameHandler = None, handler_state = (), handler_calls = []\<rparr>)"
proof -
  have r1: "quicvarint_Read (stream (fresh_parser [6, 2, 8, 1] None ())) =
     (Inr 6, \<lparr>pending = [2, 8, 1], final = EOF\<rparr>)"
    by (simp add: fresh_parser_def quicvarint_Read_def ReadByte_def)
  have r2: "quicvarint_Read \<lparr>pending = [2, 8, 1], final = EOF\<rparr> =
     (Inr 2, \<lparr>pending = [8, 1], final = EOF\<rparr>)"
    by (simp add: quicvarint_Read_def ReadByte_def)
  show ?thesis
    using r1 r2 ParseNext_forbidden_type [OF r1 _ r2, of "0x105"]
    by (simp add: fresh_parser_def)
qed

text \<open>
  C7, as stated, fails: a handler that reports hijacked together with an error of its own
  gets that error back, not the hijacked sentinel, and a handler that declines with an
  error of its own replaces the read error.
\<close>

theorem ParseNext_type_read_failure_counterexample:
  "fst (ParseNext 0x105
      (fresh_parser [] (Some (\<lambda>s t e. ((True, Some (HandlerError ''refused'')), s))) ())) =
     Inl (HandlerError ''refused'') \<and>
   fst (ParseNext 0x105
      (fresh_parser [] (Some (\<lambda>s t e. ((True, Some (HandlerError ''refused'')), s))) ())) \<noteq>
     Inl errHijacked \<and>
   fst (ParseNext 0x105
      (fresh_parser [] (Some (\<lambda>s t e. ((False, Some (HandlerError ''refused'')), s))) ())) \<noteq>
     Inl EOF"
proof -
  have "fst (ParseNext_pass 0x105
      (fresh_parser [] (Some (\<lambda>s t e. ((b, Some (HandlerError ''refused'')), s))) ())) =
     Return (Inl (HandlerError ''refused''))" for b
    by (simp add: ParseNext_pass_def fresh_parser_def quicvarint_Read_def ReadByte_def
        type_read_failed_def call_handler_def)
  then have "fst (ParseNext 0x105
      (fresh_parser [] (Some (\<lambda>s t e. ((b, Some (HandlerError ''refused'')), s))) ())) =
     Inl (HandlerError ''refused'')" for b
    by (rule ParseNext_Return_fst)
  then show ?thesis by simp
qed

text \<open>
  C7, amended. When reading the type tag fails and a handler is registered,
  \<^verbatim>\<open>ParseNext\<close> calls it once with type \<open>0\<close> and the read error. If the handler returns no
  error of its own, the result is the hijacked sentinel when it reports hijacked, and the
  original read error otherwise.
\<close>

theorem ParseNext_type_read_failure:
  assumes "quicvarint_Read (stream p) = (Inl err, r1)"
    and "unknownFrameHandler p = Some h"
    and "h (handler_state p) 0 (Some err) = ((hijacked, None), s')"
  shows "ParseNext c p =
    (Inl (if hijacked then errHijacked else err),
     p\<lparr>stream := r1, handler_state := s', handler_calls := handler_calls p @ [(0, Some err)]\<rparr>)"
proof -
  have "type_read_failed (p\<lparr>stream := r1\<rparr>) err =
    (Inl (if hijacked then errHijacked else err),
     p\<lparr>stream := r1, handler_state := s', handler_calls := handler_calls p @ [(0, Some err)]\<rparr>)"
    using assms(2,3) by (simp add: type_read_failed_def call_handler_def)
  then have "ParseNext_pass c p =
    (Return (Inl (if hijacked then errHijacked else err)),
     p\<lparr>stream := r1, handler_state := s', handler_calls := handler_calls p @ [(0, Some err)]\<rparr>)"
    using assms(1) by (simp add: ParseNext_pass_def)
  then show ?thesis by (subst ParseNext.simps) simp
qed

theorem ParseNext_type_read_failure_witness:
  "quicvarint_Read (stream (fresh_parser [0x40] (Some (\<lambda>s t e. ((True, None), Suc s))) (0::nat))) =
     (Inl EOF, \<lparr>pending = [], final = EOF\<rparr>) \<and>
   ParseNext 0x105 (fresh_parser [0x40] (Some (\<lambda>s t e. ((True, None), Suc s))) (0::nat)) =
     (Inl errHijacked,
      \<lparr>stream = \<lparr>pending = [], final = EOF\<rparr>, closeConn_calls = [],
       unknownFrameHandler = Some (\<lambda>s t e. ((True, None), Suc s)), handler_state = Suc 0,
       handler_calls = [(0, Some EOF)]\<rparr>) \<and>
   ParseNext 0x105 (fresh_parser [0x40] (Some (\<lambda>s t e. ((False, None), Suc s))) (0::nat)) =
     (Inl EOF,
      \<lparr>stream = \<lparr>pending = [], final = EOF\<rparr>, closeConn_calls = [],
       unknownFrameHandler = Some (\<lambda>s t e. ((False, None), Suc s)), handler_state = Suc 0,
       handler_calls = [(0, Some EOF)]\<rparr>)"
proof -
  have rd: "quicvarint_Read (stream (fresh_parser [0x40] h (0::nat))) =
     (Inl EOF, \<lparr>pending = [], final = EOF\<rparr>)" for h
    by (simp add: fresh_parser_def quicvarint_Read_def ReadByte_def)
  show ?thesis
    using rd [of "Some (\<lambda>s t e. ((True, None), Suc s))"]
      ParseNext_type_read_failure [OF rd, of "Some (\<lambda>s t e. ((True, None), Suc s))"
        "\<lambda>s t e. ((True, None), Suc s)" True "Suc 0" "0x105"]
      ParseNext_type_read_failure [OF rd, of "Some (\<lambda>s t e. ((False, None), Suc s))"
        "\<lambda>s t e. ((False, None), Suc s)" False "Suc 0" "0x105"]
    by (simp add: fresh_parser_def)
qed

text \<open>
  C9. Whenever the handler is called (with type \<open>0\<close> and the read error after a failed
  read of the type tag, or with the type and no error for a type above \<open>0xd\<close>) and it
  returns an error, \<^verbatim>\<open>ParseNext\<close> returns that error, whatever the hijacked flag says; the
  hijacked sentinel is the result when the handler reports hijacked with no error.
\<close>

theorem ParseNext_handler_error_first:
  assumes "unknownFrameHandler p = Some h"
    and "quicvarint_Read (stream p) = (Inl err, r1) \<and> t = 0 \<and> arg = Some err
       \<or> quicvarint_Read (stream p) = (Inr t, r1) \<and> 0xd < t \<and> arg = None"
    and "h (handler_state p) t arg = ((hijacked, herr), s')"
    and "herr = None \<Longrightarrow> hijacked"
  shows "ParseNext c p =
    (Inl (case herr of Some e \<Rightarrow> e | None \<Rightarrow> errHijacked),
     p\<lparr>stream := r1, handler_state := s', handler_calls := handler_calls p @ [(t, arg)]\<rparr>)"
  using assms(2)
proof
  assume a: "quicvarint_Read (stream p) = (Inl err, r1) \<and> t = 0 \<and> arg = Some err"
  have "type_read_failed (p\<lparr>stream := r1\<rparr>) err =
    (Inl (case herr of Some e \<Rightarrow> e | None \<Rightarrow> errHijacked),
     p\<lparr>stream := r1, handler_state := s', handler_calls := handler_calls p @ [(t, arg)]\<rparr>)"
    using assms(1,3,4) a
    by (auto simp: type_read_failed_def call_handler_def split: option.splits)
  then show ?thesis using a by (intro ParseNext_Return) (simp add: ParseNext_pass_def)
next
  assume a: "quicvarint_Read (stream p) = (Inr t, r1) \<and> 0xd < t \<and> arg = None"
  have "unknown_type_hook (p\<lparr>stream := r1\<rparr>) t =
    (Some (case herr of Some e \<Rightarrow> e | None \<Rightarrow> errHijacked),
     p\<lparr>stream := r1, handler_state := s', handler_calls := handler_calls p @ [(t, arg)]\<rparr>)"
    using assms(1,3,4) a
    by (auto simp: unknown_type_hook_def call_handler_def split: option.splits)
  then show ?thesis using a by (intro ParseNext_Return) (simp add: ParseNext_pass_def)
qed

theorem ParseNext_handler_error_first_witness:
  "unknownFrameHandler
     (fresh_parser [0x21, 0] (Some (\<lambda>s t e. ((True, Some (HandlerError ''late'')), t # s))) []) =
     Some (\<lambda>s t e. ((True, Some (HandlerError ''late'')), t # s)) \<and>
   quicvarint_Read (stream
     (fresh_parser [0x21, 0] (Some (\<lambda>s t e. ((True, Some (HandlerError ''late'')), t # s))) [])) =
     (Inr 0x21, \<lparr>pending = [0], final = EOF\<rparr>) \<and>
   ParseNext 0x105
     (fresh_parser [0x21, 0] (Some (\<lambda>s t e. ((True, Some (HandlerError ''late'')), t # s))) []) =
     (Inl (HandlerError ''late''),
      \<lparr>stream = \<lparr>pending = [0], final = EOF\<rparr>, closeConn_calls = [],
       unknownFrameHandler = Some (\<lambda>s t e. ((True, Some (HandlerError ''late'')), t # s)),
       handler_state = [0x21], handler_calls = [(0x21, None)]\<rparr>)"
proof -
  let ?h = "\<lambda>(s::FrameType list) (t::FrameType) (e::error option).
    ((True, Some (HandlerError ''late'')), t # s)"
  have rd: "quicvarint_Read (stream (fresh_parser [0x21, 0] (Some ?h) [])) =
     (Inr 0x21, \<lparr>pending = [0], final = EOF\<rparr>)"
    by (simp add: fresh_parser_def quicvarint_Read_def ReadByte_def)
  show ?thesis
    using rd ParseNext_handler_error_first [of "fresh_parser [0x21, 0] (Some ?h) []" ?h
        undefined "\<lparr>pending = [0], final = EOF\<rparr>" "0x21" None True
        "Some (HandlerError ''late'')" "[0x21]" "0x105"]
    by (simp add: fresh_parser_def)
qed

end
